theory Spec2Isabelle
  imports
    Complex_Main
    "HOL-Library.Word"
    "HOL-Library.Char_ord"
    "HOL-Library.List_Lexorder"
    "HOL-Library.Multiset"
begin

unbundle bit_operations_syntax

section \<open>Data model\<close>

text \<open>
  Player ids and names are JavaScript strings; a \<open>string\<close> here is the list of their
  code units, which \<open>char\<close> limits to the code units below 256.  The generator can
  leave the value \<open>undefined\<close> in a player slot of a match (a read past the end of an
  array), so the records of a match are polymorphic in the type of a slot: the generator
  fills them with \<open>pid option\<close> (\<open>None\<close> is \<open>undefined\<close>), the statistics read
  them as \<open>pid\<close>.

  Field names follow the source, prefixed where two records of the source share a field
  name or the name is a constant of HOL (\<open>id\<close>, \<open>round\<close>).
\<close>

type_synonym pid = string

record player =
  player_id :: pid
  player_name :: string

record 'i team =
  team_a :: 'i
  team_b :: 'i

record score =
  score_team1 :: int
  score_team2 :: int

record 'i match =
  court :: nat
  team1 :: "'i team"
  team2 :: "'i team"
  score :: "score option"

record 'i round =
  round_no :: nat
  matches :: "'i match list"

text \<open>The errors the source throws: the four messages of \<open>generateSchedule\<close> (the last
  with the number of the round), and the \<open>TypeError\<close> of the runtime on reading a
  property of \<open>undefined\<close>.\<close>

datatype error =
    PlayerCount
  | DuoNames
  | OthersCount
  | CannotBalance
  | RoundConstruction nat
  | TypeError

text \<open>\<open>String.prototype.localeCompare\<close> belongs to the platform, not to the repository:
  every function that calls it takes it as the parameter \<open>cmp\<close> (negative, zero or
  positive).  \<open>codeUnitCompare\<close> is the instance that compares code units
  lexicographically; it agrees with the platform's comparison on the ids and names of the
  example players (\<open>p3\<close> to \<open>p12\<close>, \<open>Player n\<close>), but not on names of mixed case,
  where \<open>localeCompareLetters\<close> below is the instance.\<close>

type_synonym compare = "string \<Rightarrow> string \<Rightarrow> int"

definition codeUnitCompare :: compare where
  "codeUnitCompare x y = (if x < y then - 1 else if x = y then 0 else 1)"

text \<open>\<open>Array.prototype.sort\<close> with a comparison function: a stable sort, here by
  insertion.  An element is placed before the first element it does not exceed, and the
  elements are inserted from the right, so equal elements keep their order.\<close>

fun insort_by :: "('a \<Rightarrow> 'a \<Rightarrow> int) \<Rightarrow> 'a \<Rightarrow> 'a list \<Rightarrow> 'a list" where
  "insort_by c x [] = [x]"
| "insort_by c x (y # ys) = (if c x y \<le> 0 then x # y # ys else y # insort_by c x ys)"

definition sort_by :: "('a \<Rightarrow> 'a \<Rightarrow> int) \<Rightarrow> 'a list \<Rightarrow> 'a list" where
  "sort_by c xs = foldr (insort_by c) xs []"

text \<open>The ids in the four slots of a match: \<open>[m.team1.a, m.team1.b, m.team2.a, m.team2.b]\<close>.\<close>

definition matchIds :: "'i match \<Rightarrow> 'i list" where
  "matchIds m = [team_a (team1 m), team_b (team1 m), team_a (team2 m), team_b (team2 m)]"

section \<open>Utilities\<close>

text \<open>\<open>Math.imul\<close>: the low 32 bits of the product.\<close>

definition imul :: "32 word \<Rightarrow> 32 word \<Rightarrow> 32 word" where
  "imul x y = x * y"

text \<open>
  One call of the closure that \<open>mulberry32(seed)\<close> returns.  The state is the captured
  variable \<open>seed\<close>, a JavaScript number that \<open>seed += 0x6d2b79f5\<close> lets grow without
  wrapping: an \<open>int\<close>, exact as long as the number stays below \<open>2^53\<close>.  The bitwise operators and \<open>Math.imul\<close> reduce their operands
  modulo \<open>2^32\<close>, so \<open>t\<close> is a \<open>32 word\<close>; \<open>>>>\<close> is \<open>drop_bit\<close>.  The result is
  the unsigned value of \<open>t ^ (t >>> 14)\<close> divided by \<open>2^32\<close>, which a double holds
  exactly, and the new state.
\<close>

definition mulberry32 :: "int \<Rightarrow> rat \<times> int" where
  "mulberry32 seed =
     (let seed' = seed + 0x6d2b79f5;
          t0 = (word_of_int seed' :: 32 word);
          t1 = imul (t0 XOR drop_bit 15 t0) (t0 OR 1);
          t2 = t1 XOR (t1 + imul (t1 XOR drop_bit 7 t1) (t1 OR 61))
      in (of_int (uint (t2 XOR drop_bit 14 t2)) / 4294967296, seed'))"

text \<open>
  The loop of \<open>shuffle\<close>, \<open>for (let i = a.length - 1; i > 0; i--)\<close>: \<open>j\<close> is
  \<open>Math.floor(rng() * (i + 1))\<close> and \<open>a[i]\<close>, \<open>a[j]\<close> are swapped.  The generator
  state is threaded through.
\<close>

fun shuffleLoop :: "'a list \<Rightarrow> nat \<Rightarrow> int \<Rightarrow> 'a list \<times> int" where
  "shuffleLoop a i g =
     (if i > 0 then
        let (x, g') = mulberry32 g;
            j = nat \<lfloor>x * of_nat (i + 1)\<rfloor>
        in shuffleLoop (a[i := a ! j, j := a ! i]) (i - 1) g'
      else (a, g))"

declare shuffleLoop.simps [simp del]

definition shuffle :: "'a list \<Rightarrow> int \<Rightarrow> 'a list \<times> int" where
  "shuffle arr g = shuffleLoop arr (length arr - 1) g"

text \<open>\<open>pairKey\<close>; \<open><\<close> on strings compares code units lexicographically.\<close>

definition pairKey :: "string \<Rightarrow> string \<Rightarrow> string" where
  "pairKey a b = (if a < b then a @ ''-'' @ b else b @ ''-'' @ a)"

section \<open>Schedule generator\<close>

subsection \<open>The Duo name rule\<close>

text \<open>\<open>s.trim().toLowerCase()\<close> on code units below 256: the white space and line
  terminators among them, and the letters that have a lower case there.\<close>

definition isSpace :: "char \<Rightarrow> bool" where
  "isSpace c = ((of_char c :: nat) \<in> {9, 10, 11, 12, 13, 32, 160})"

definition trim :: "string \<Rightarrow> string" where
  "trim s = rev (dropWhile isSpace (rev (dropWhile isSpace s)))"

definition toLowerCase :: "string \<Rightarrow> string" where
  "toLowerCase s =
     map (\<lambda>c. let n = (of_char c :: nat) in
            if (65 \<le> n \<and> n \<le> 90) \<or> (192 \<le> n \<and> n \<le> 222 \<and> n \<noteq> 215)
            then char_of (n + 32) else c) s"

definition lower :: "string \<Rightarrow> string" where
  "lower s = toLowerCase (trim s)"

text \<open>\<open>/^(daniel|macho)$/.test(lower(p.name))\<close>.\<close>

definition isDuoName :: "string \<Rightarrow> bool" where
  "isDuoName n = (lower n = ''daniel'' \<or> lower n = ''macho'')"

definition dmIds :: "player list \<Rightarrow> pid list" where
  "dmIds players = map player_id (filter (\<lambda>p. isDuoName (player_name p)) players)"

text \<open>\<open>others\<close>: the ids of the players whose id is neither \<open>D\<close> nor \<open>M\<close>.\<close>

definition othersOf :: "player list \<Rightarrow> pid \<Rightarrow> pid \<Rightarrow> pid list" where
  "othersOf players D M =
     map player_id (filter (\<lambda>p. player_id p \<noteq> D \<and> player_id p \<noteq> M) players)"

subsection \<open>buildBalancedDmOpponents\<close>

text \<open>Assignment to an array element; JavaScript extends the array when the index is
  past its end.\<close>

definition setAt :: "'a option list \<Rightarrow> nat \<Rightarrow> 'a option \<Rightarrow> 'a option list" where
  "setAt xs k v =
     (if k < length xs then xs[k := v] else xs @ replicate (k - length xs) None @ [v])"

text \<open>
  The variables that \<open>backtrack\<close> shares and mutates: the map \<open>counts\<close>, the set
  \<open>usedPair\<close> and the array \<open>res\<close> (a hole and \<open>null\<close> are both \<open>None\<close>).  The
  map has a key for every id of \<open>ids\<close>, all 0 at first, and only those keys are ever
  read: it is a total function here.
\<close>

record bstate =
  counts :: "pid \<Rightarrow> int"
  usedPair :: "string set"
  res :: "(pid \<times> pid) option list"

definition NEED :: int where
  "NEED = 3"

text \<open>The comparison function of \<open>pool\<close>:
  \<open>(counts.get(a) - counts.get(b)) || a.localeCompare(b)\<close>.\<close>

definition poolCompare :: "compare \<Rightarrow> (pid \<Rightarrow> int) \<Rightarrow> pid \<Rightarrow> pid \<Rightarrow> int" where
  "poolCompare cmp c x y = (if c x - c y \<noteq> 0 then c x - c y else cmp x y)"

text \<open>The four statements under \<open>// choose\<close>, and the four under \<open>// undo\<close>.\<close>

definition choosePair :: "nat \<Rightarrow> pid \<Rightarrow> pid \<Rightarrow> bstate \<Rightarrow> bstate" where
  "choosePair k x y st =
     (let c1 = (counts st)(x := counts st x + 1);
          c2 = c1(y := c1 y + 1)
      in st\<lparr>counts := c2, usedPair := insert (pairKey x y) (usedPair st),
             res := setAt (res st) k (Some (x, y))\<rparr>)"

definition undoPair :: "nat \<Rightarrow> pid \<Rightarrow> pid \<Rightarrow> bstate \<Rightarrow> bstate" where
  "undoPair k x y st =
     (let c1 = (counts st)(x := counts st x - 1);
          c2 = c1(y := c1 y - 1)
      in st\<lparr>counts := c2, usedPair := usedPair st - {pairKey x y},
             res := setAt (res st) k None\<rparr>)"

text \<open>The quick feasibility check, made after the pair is chosen.\<close>

definition needTotal :: "pid list \<Rightarrow> (pid \<Rightarrow> int) \<Rightarrow> int" where
  "needTotal ids c = fold (\<lambda>i acc. acc + max 0 (NEED - c i)) ids 0"

definition feasible :: "pid list \<Rightarrow> nat \<Rightarrow> bstate \<Rightarrow> bool" where
  "feasible ids k st =
     (let remainingSlots = (15 - (int k + 1)) * 2
      in needTotal ids (counts st) \<le> remainingSlots)"

lemma needTotal_nonneg: "0 \<le> needTotal ids c"
proof -
  have "0 \<le> acc \<Longrightarrow> 0 \<le> fold (\<lambda>i acc. acc + max 0 (NEED - c i)) ids acc" for acc
    by (induction ids arbitrary: acc) auto
  then show ?thesis by (simp add: needTotal_def)
qed

lemma feasible_less: "feasible ids k st \<Longrightarrow> k < 15"
  using needTotal_nonneg [of ids "counts st"] by (simp add: feasible_def)

text \<open>
  \<open>backtrack(k)\<close> with its two nested loops, \<open>loop_i\<close> over \<open>i\<close> and \<open>loop_j\<close> over
  \<open>j\<close>.  Each returns the boolean of the source and the state it leaves behind.  The
  recursion ends because a pair that passes the feasibility check has \<open>k < 15\<close>.
\<close>

function backtrack :: "compare \<Rightarrow> pid list \<Rightarrow> nat \<Rightarrow> bstate \<Rightarrow> bool \<times> bstate"
  and loop_i :: "compare \<Rightarrow> pid list \<Rightarrow> nat \<Rightarrow> pid list \<Rightarrow> nat \<Rightarrow> bstate \<Rightarrow> bool \<times> bstate"
  and loop_j :: "compare \<Rightarrow> pid list \<Rightarrow> nat \<Rightarrow> pid list \<Rightarrow> nat \<Rightarrow> nat \<Rightarrow> bstate \<Rightarrow> bool \<times> bstate"
where
  "backtrack cmp ids k st =
     (if k = 15 then (True, st)
      else loop_i cmp ids k (sort_by (poolCompare cmp (counts st)) ids) 0 st)"
| "loop_i cmp ids k pool i st =
     (if i < length pool then
        if counts st (pool ! i) \<ge> NEED then loop_i cmp ids k pool (i + 1) st
        else (case loop_j cmp ids k pool i (i + 1) st of
                (True, st') \<Rightarrow> (True, st')
              | (False, st') \<Rightarrow> loop_i cmp ids k pool (i + 1) st')
      else (False, st))"
| "loop_j cmp ids k pool i j st =
     (if j < length pool then
        if counts st (pool ! j) \<ge> NEED then loop_j cmp ids k pool i (j + 1) st
        else if pairKey (pool ! i) (pool ! j) \<in> usedPair st then loop_j cmp ids k pool i (j + 1) st
        else
          let st1 = choosePair k (pool ! i) (pool ! j) st in
          if feasible ids k st1 then
            (case backtrack cmp ids (k + 1) st1 of
               (True, st2) \<Rightarrow> (True, st2)
             | (False, st2) \<Rightarrow> loop_j cmp ids k pool i (j + 1) (undoPair k (pool ! i) (pool ! j) st2))
          else loop_j cmp ids k pool i (j + 1) (undoPair k (pool ! i) (pool ! j) st1)
      else (False, st))"
  by pat_completeness auto
termination
  apply (relation "measures [
      (\<lambda>x. case x of Inl (cmp, ids, k, st) \<Rightarrow> 15 - k
                    | Inr (Inl (cmp, ids, k, pool, i, st)) \<Rightarrow> 15 - k
                    | Inr (Inr (cmp, ids, k, pool, i, j, st)) \<Rightarrow> 15 - k),
      (\<lambda>x. case x of Inl _ \<Rightarrow> 2 | Inr (Inl _) \<Rightarrow> 1 | Inr (Inr _) \<Rightarrow> 0),
      (\<lambda>x. case x of Inl _ \<Rightarrow> 0
                    | Inr (Inl (cmp, ids, k, pool, i, st)) \<Rightarrow> length pool - i
                    | Inr (Inr (cmp, ids, k, pool, i, j, st)) \<Rightarrow> length pool - j)]")
  apply (auto dest: feasible_less)
  done

declare backtrack.simps [simp del] loop_i.simps [simp del] loop_j.simps [simp del]

text \<open>\<open>counts\<close> all 0, \<open>usedPair\<close> empty, \<open>res = new Array(15)\<close>.\<close>

definition initState :: bstate where
  "initState = \<lparr>counts = (\<lambda>_. 0), usedPair = {}, res = replicate 15 None\<rparr>"

definition buildBalancedDmOpponents :: "compare \<Rightarrow> pid list \<Rightarrow> error + (pid \<times> pid) option list" where
  "buildBalancedDmOpponents cmp ids =
     (case backtrack cmp ids 0 initState of
        (False, _) \<Rightarrow> Inl CannotBalance
      | (True, st) \<Rightarrow> Inr (res st))"

subsection \<open>Rounds\<close>

text \<open>\<open>pairRemaining\<close>: the loop pushes \<open>[arr[i], arr[i + 1]]\<close> for i = 0, 2, 4, ...;
  with an odd number of elements the last read is past the end and gives
  \<open>undefined\<close>.\<close>

fun pairUp :: "'a list \<Rightarrow> ('a option \<times> 'a option) list" where
  "pairUp [] = []"
| "pairUp [x] = [(Some x, None)]"
| "pairUp (x # y # xs) = (Some x, Some y) # pairUp xs"

definition pairRemaining :: "pid list \<Rightarrow> int \<Rightarrow> (pid option \<times> pid option) list \<times> int" where
  "pairRemaining eight g = (case shuffle eight g of (arr, g') \<Rightarrow> (pairUp arr, g'))"

text \<open>The inner loop of the check of a round: \<open>for (const id of ids)\<close>.\<close>

fun checkIds :: "'i list \<Rightarrow> 'i set \<Rightarrow> bool \<times> 'i set" where
  "checkIds [] seen = (True, seen)"
| "checkIds (i # ids) seen = (if i \<in> seen then (False, seen) else checkIds ids (insert i seen))"

text \<open>The outer loop: \<open>for (const m of matches)\<close>.\<close>

fun checkMatches :: "'i match list \<Rightarrow> 'i set \<Rightarrow> bool \<times> 'i set" where
  "checkMatches [] seen = (True, seen)"
| "checkMatches (m # ms) seen =
     (if card (set (matchIds m)) \<noteq> 4 then (False, seen)
      else (case checkIds (matchIds m) seen of
              (False, seen') \<Rightarrow> (False, seen')
            | (True, seen') \<Rightarrow> checkMatches ms seen'))"

text \<open>The round passes when \<open>!ok || seen.size !== 12\<close> is false.\<close>

definition roundOk :: "'i match list \<Rightarrow> bool" where
  "roundOk ms = (case checkMatches ms {} of (ok, seen) \<Rightarrow> ok \<and> card seen = 12)"

text \<open>The three matches of a round: the Duo against the round's opponents on court 7,
  the shuffled pairs on courts 8 and 9.\<close>

definition roundMatches ::
  "pid \<Rightarrow> pid \<Rightarrow> pid \<Rightarrow> pid \<Rightarrow> (pid option \<times> pid option) list \<Rightarrow> pid option match list" where
  "roundMatches D M o1 o2 pp = [
     \<lparr>court = 7, team1 = \<lparr>team_a = Some D, team_b = Some M\<rparr>,
        team2 = \<lparr>team_a = Some o1, team_b = Some o2\<rparr>, score = None\<rparr>,
     \<lparr>court = 8, team1 = \<lparr>team_a = fst (pp ! 0), team_b = snd (pp ! 0)\<rparr>,
        team2 = \<lparr>team_a = fst (pp ! 1), team_b = snd (pp ! 1)\<rparr>, score = None\<rparr>,
     \<lparr>court = 9, team1 = \<lparr>team_a = fst (pp ! 2), team_b = snd (pp ! 2)\<rparr>,
        team2 = \<lparr>team_a = fst (pp ! 3), team_b = snd (pp ! 3)\<rparr>, score = None\<rparr>]"

text \<open>One iteration of the loop over the rounds, for \<open>r\<close> from 0.  Reading
  \<open>dmOpp[0]\<close> of a missing pair, or \<open>pp[n][0]\<close> of a missing \<open>pp[n]\<close>, is a
  \<open>TypeError\<close>; \<open>roundMatches\<close> is only reached with the four pairs present.\<close>

definition buildRound ::
  "pid \<Rightarrow> pid \<Rightarrow> pid list \<Rightarrow> (pid \<times> pid) option list \<Rightarrow> nat \<Rightarrow> int \<Rightarrow>
     error + (pid option round \<times> int)" where
  "buildRound D M others dmOppPairs r g =
     (if r < length dmOppPairs then
        (case dmOppPairs ! r of
           None \<Rightarrow> Inl TypeError
         | Some (o1, o2) \<Rightarrow>
             let rem = filter (\<lambda>i. i \<notin> {D, M, o1, o2}) others in
             (case pairRemaining rem g of (pairs, g1) \<Rightarrow>
               (case shuffle pairs g1 of (pp, g2) \<Rightarrow>
                  if length pp < 4 then Inl TypeError
                  else
                    let ms = roundMatches D M o1 o2 pp
                    in if roundOk ms then Inr (\<lparr>round_no = r + 1, matches = ms\<rparr>, g2)
                       else Inl (RoundConstruction (r + 1)))))
      else Inl TypeError)"

text \<open>\<open>for (let r = 0; r < 15; r++)\<close>, with the rounds pushed so far.\<close>

function roundsLoop ::
  "pid \<Rightarrow> pid \<Rightarrow> pid list \<Rightarrow> (pid \<times> pid) option list \<Rightarrow> nat \<Rightarrow> int \<Rightarrow>
     pid option round list \<Rightarrow> error + pid option round list" where
  "roundsLoop D M others dmOppPairs r g rounds =
     (if r < 15 then
        (case buildRound D M others dmOppPairs r g of
           Inl e \<Rightarrow> Inl e
         | Inr (rnd, g') \<Rightarrow> roundsLoop D M others dmOppPairs (r + 1) g' (rounds @ [rnd]))
      else Inr rounds)"
  by pat_completeness auto
termination
  by (relation "measure (\<lambda>(D, M, others, dmOppPairs, r, g, rounds). 15 - r)") auto

declare roundsLoop.simps [simp del]

subsection \<open>generateSchedule\<close>

text \<open>The seed is an integer, as the specification has it; the generator state starts
  as the seed.\<close>

definition generateSchedule ::
  "compare \<Rightarrow> player list \<Rightarrow> int \<Rightarrow> error + pid option round list" where
  "generateSchedule cmp players seed =
     (if length players \<noteq> 12 then Inl PlayerCount
      else if length (dmIds players) \<noteq> 2 then Inl DuoNames
      else
        let D = dmIds players ! 0; M = dmIds players ! 1;
            others = othersOf players D M
        in if length others \<noteq> 10 then Inl OthersCount
           else (case buildBalancedDmOpponents cmp others of
                   Inl e \<Rightarrow> Inl e
                 | Inr dmOppPairs \<Rightarrow> roundsLoop D M others dmOppPairs 0 seed []))"

section \<open>Statistics\<close>

subsection \<open>computeStats\<close>

record row =
  row_player :: pid
  row_name :: string
  played :: int
  won :: int
  tied :: int
  lost :: int
  pointsFor :: int
  pointsAgainst :: int
  diff :: int

text \<open>\<open>new Map(players.map((p) => [p.id, p.name]))\<close>: a later entry with the same key
  replaces the earlier one.\<close>

definition idToName :: "player list \<Rightarrow> pid \<rightharpoonup> string" where
  "idToName players = map_of (rev (map (\<lambda>p. (player_id p, player_name p)) players))"

text \<open>\<open>idToName.get(id) || id\<close>: the id stands in for a missing or empty name.\<close>

definition nameOrId :: "player list \<Rightarrow> pid \<Rightarrow> string" where
  "nameOrId players i =
     (case idToName players i of None \<Rightarrow> i | Some n \<Rightarrow> if n = [] then i else n)"

text \<open>The \<open>rows\<close> map keeps its keys in insertion order: an association list with
  distinct keys, new keys appended.\<close>

type_synonym rows = "(pid \<times> row) list"

definition ensure :: "player list \<Rightarrow> pid \<Rightarrow> rows \<Rightarrow> rows" where
  "ensure players i rs =
     (if i \<in> fst ` set rs then rs
      else rs @ [(i, \<lparr>row_player = i, row_name = nameOrId players i, played = 0, won = 0,
                      tied = 0, lost = 0, pointsFor = 0, pointsAgainst = 0, diff = 0\<rparr>)])"

text \<open>\<open>const row = ensure(id); ...\<close> followed by a mutation \<open>f\<close> of that row.\<close>

definition touch :: "player list \<Rightarrow> (row \<Rightarrow> row) \<Rightarrow> pid \<Rightarrow> rows \<Rightarrow> rows" where
  "touch players f i rs =
     map (\<lambda>(k, r). if k = i then (k, f r) else (k, r)) (ensure players i rs)"

definition forEach :: "player list \<Rightarrow> (row \<Rightarrow> row) \<Rightarrow> pid list \<Rightarrow> rows \<Rightarrow> rows" where
  "forEach players f ids rs = fold (touch players f) ids rs"

text \<open>A valid score: present, and the two sides sum to 24.\<close>

definition validScore :: "score option \<Rightarrow> bool" where
  "validScore sc = (case sc of None \<Rightarrow> False | Some s \<Rightarrow> score_team1 s + score_team2 s = 24)"

text \<open>The body of the inner loop of \<open>computeStats\<close> for one match.\<close>

definition countMatch :: "player list \<Rightarrow> pid match \<Rightarrow> rows \<Rightarrow> rows" where
  "countMatch players m rs =
     (case score m of
        None \<Rightarrow> rs
      | Some s \<Rightarrow>
          let s1 = score_team1 s; s2 = score_team2 s in
          if s1 + s2 \<noteq> 24 then rs
          else
            let t1 = [team_a (team1 m), team_b (team1 m)];
                t2 = [team_a (team2 m), team_b (team2 m)];
                rs1 = forEach players (\<lambda>r. r\<lparr>played := played r + 1,
                        pointsFor := pointsFor r + s1, pointsAgainst := pointsAgainst r + s2\<rparr>) t1 rs;
                rs2 = forEach players (\<lambda>r. r\<lparr>played := played r + 1,
                        pointsFor := pointsFor r + s2, pointsAgainst := pointsAgainst r + s1\<rparr>) t2 rs1
            in
              if s1 > s2 then
                forEach players (\<lambda>r. r\<lparr>lost := lost r + 1\<rparr>) t2
                  (forEach players (\<lambda>r. r\<lparr>won := won r + 1\<rparr>) t1 rs2)
              else if s2 > s1 then
                forEach players (\<lambda>r. r\<lparr>lost := lost r + 1\<rparr>) t1
                  (forEach players (\<lambda>r. r\<lparr>won := won r + 1\<rparr>) t2 rs2)
              else
                forEach players (\<lambda>r. r\<lparr>tied := tied r + 1\<rparr>) (t1 @ t2) rs2)"

definition countAll :: "player list \<Rightarrow> pid round list \<Rightarrow> rows" where
  "countAll players schedule =
     fold (\<lambda>r rs. fold (countMatch players) (matches r) rs) schedule []"

text \<open>The comparison function of the final sort; \<open>x || y\<close> is \<open>y\<close> when \<open>x\<close> is 0.\<close>

definition rowCompare :: "compare \<Rightarrow> row \<Rightarrow> row \<Rightarrow> int" where
  "rowCompare cmp x y =
     (if pointsFor y - pointsFor x \<noteq> 0 then pointsFor y - pointsFor x
      else if won y - won x \<noteq> 0 then won y - won x
      else if diff y - diff x \<noteq> 0 then diff y - diff x
      else cmp (row_name x) (row_name y))"

definition computeStats :: "compare \<Rightarrow> pid round list \<Rightarrow> player list \<Rightarrow> row list" where
  "computeStats cmp schedule players =
     sort_by (rowCompare cmp)
       (map (\<lambda>(k, r). r\<lparr>diff := pointsFor r - pointsAgainst r\<rparr>) (countAll players schedule))"

subsection \<open>dmStats\<close>

record game =
  game_round :: nat
  oppNames :: string
  game_score :: "string option"
  result :: "string option"

text \<open>\<open>hasDM\<close>: both Duo ids are on the team \<open>t\<close>.\<close>

definition hasDM :: "'i \<Rightarrow> 'i \<Rightarrow> 'i list \<Rightarrow> bool" where
  "hasDM danielId machoId t \<longleftrightarrow> danielId \<in> set t \<and> machoId \<in> set t"

text \<open>\<open>players.find((p) => p.id === id)?.name || id\<close>.\<close>

definition findName :: "player list \<Rightarrow> pid \<Rightarrow> string" where
  "findName players i =
     (case find (\<lambda>p. player_id p = i) players of
        None \<Rightarrow> i
      | Some p \<Rightarrow> if player_name p = [] then i else player_name p)"

fun join :: "string \<Rightarrow> string list \<Rightarrow> string" where
  "join sep [] = []"
| "join sep [x] = x"
| "join sep (x # y # ys) = x @ sep @ join sep (y # ys)"

text \<open>The decimal text of an integer, as a template literal prints a number.\<close>

fun digitsOf :: "nat \<Rightarrow> string" where
  "digitsOf n = (if n < 10 then [char_of (48 + n)] else digitsOf (n div 10) @ [char_of (48 + n mod 10)])"

declare digitsOf.simps [simp del]

definition numberToString :: "int \<Rightarrow> string" where
  "numberToString n = (if n < 0 then CHR ''-'' # digitsOf (nat (- n)) else digitsOf (nat n))"

text \<open>\<open>hasDM(t1) || hasDM(t2)\<close>: the Duo played in the match.\<close>

definition duoPlayed :: "'i \<Rightarrow> 'i \<Rightarrow> 'i match \<Rightarrow> bool" where
  "duoPlayed danielId machoId m \<longleftrightarrow>
     hasDM danielId machoId [team_a (team1 m), team_b (team1 m)] \<or>
     hasDM danielId machoId [team_a (team2 m), team_b (team2 m)]"

text \<open>The entry pushed for a match of the Duo; \<open>score\<close> and \<open>result\<close> stay
  \<open>undefined\<close> when the match has no score.\<close>

definition gameEntry :: "pid \<Rightarrow> pid \<Rightarrow> player list \<Rightarrow> nat \<Rightarrow> pid match \<Rightarrow> game" where
  "gameEntry danielId machoId players rno m =
     (let t1 = [team_a (team1 m), team_b (team1 m)];
          t2 = [team_a (team2 m), team_b (team2 m)];
          opp = (if hasDM danielId machoId t1 then t2 else t1);
          names = join '' & '' (map (findName players) opp);
          (sc, res) =
            (case score m of
               None \<Rightarrow> (None, None)
             | Some s \<Rightarrow>
                 let s1 = score_team1 s; s2 = score_team2 s;
                     dmOnTeam1 = hasDM danielId machoId t1;
                     dmScore = (if dmOnTeam1 then s1 else s2);
                     oppScore = (if dmOnTeam1 then s2 else s1)
                 in (Some (numberToString s1 @ ''-'' @ numberToString s2),
                     Some (if dmScore > oppScore then ''W''
                           else if dmScore < oppScore then ''L'' else ''T'')))
      in \<lparr>game_round = rno, oppNames = names, game_score = sc, result = res\<rparr>)"

text \<open>The body of the inner loop of \<open>dmStats\<close> for one match.\<close>

definition dmGame :: "pid \<Rightarrow> pid \<Rightarrow> player list \<Rightarrow> nat \<Rightarrow> pid match \<Rightarrow> game list \<Rightarrow> game list" where
  "dmGame danielId machoId players rno m games =
     (if duoPlayed danielId machoId m
      then games @ [gameEntry danielId machoId players rno m]
      else games)"

definition dmStats :: "pid round list \<Rightarrow> pid \<Rightarrow> pid \<Rightarrow> player list \<Rightarrow> game list" where
  "dmStats schedule danielId machoId players =
     fold (\<lambda>r games. fold (dmGame danielId machoId players (round_no r)) (matches r) games)
       schedule []"

subsection \<open>dmSummary\<close>

text \<open>The five counters of the loop, and the object returned: the counters without
  \<open>pointsFor\<close>, and the average.  The average is the exact quotient, of which the
  source's division gives the nearest double.\<close>

record totals =
  t_played :: int
  t_won :: int
  t_tied :: int
  t_lost :: int
  t_pointsFor :: int

record summary =
  s_played :: int
  s_won :: int
  s_tied :: int
  s_lost :: int
  s_avg :: rat

text \<open>The body of the inner loop of \<open>dmSummary\<close> for one match.\<close>

definition dmCount :: "'i \<Rightarrow> 'i \<Rightarrow> 'i match \<Rightarrow> totals \<Rightarrow> totals" where
  "dmCount danielId machoId m t =
     (let t1 = [team_a (team1 m), team_b (team1 m)]
      in if duoPlayed danielId machoId m then
           (case score m of
              None \<Rightarrow> t
            | Some s \<Rightarrow>
                let s1 = score_team1 s; s2 = score_team2 s in
                if s1 + s2 \<noteq> 24 then t
                else
                  let dmOnTeam1 = hasDM danielId machoId t1;
                      dmScore = (if dmOnTeam1 then s1 else s2);
                      oppScore = (if dmOnTeam1 then s2 else s1);
                      t' = t\<lparr>t_played := t_played t + 1, t_pointsFor := t_pointsFor t + dmScore\<rparr>
                  in if dmScore > oppScore then t'\<lparr>t_won := t_won t' + 1\<rparr>
                     else if dmScore < oppScore then t'\<lparr>t_lost := t_lost t' + 1\<rparr>
                     else t'\<lparr>t_tied := t_tied t' + 1\<rparr>)
         else t)"

definition dmTotals :: "'i round list \<Rightarrow> 'i \<Rightarrow> 'i \<Rightarrow> totals" where
  "dmTotals schedule danielId machoId =
     fold (\<lambda>r t. fold (dmCount danielId machoId) (matches r) t) schedule
       \<lparr>t_played = 0, t_won = 0, t_tied = 0, t_lost = 0, t_pointsFor = 0\<rparr>"

definition dmSummary :: "'i round list \<Rightarrow> 'i \<Rightarrow> 'i \<Rightarrow> summary" where
  "dmSummary schedule danielId machoId =
     (let t = dmTotals schedule danielId machoId;
          avg = (if t_played t \<noteq> 0 then of_int (t_pointsFor t) / of_int (t_played t) else 0)
      in \<lparr>s_played = t_played t, s_won = t_won t, s_tied = t_tied t, s_lost = t_lost t,
          s_avg = avg\<rparr>)"

section \<open>Score entry\<close>

text \<open>\<open>Math.max(0, Math.min(24, x))\<close>.\<close>

definition clamp24 :: "int \<Rightarrow> int" where
  "clamp24 x = max 0 (min 24 x)"

text \<open>The schedule with the score field of match \<open>mi\<close> of round \<open>ri\<close> replaced,
  everything else as it was.\<close>

definition putScore :: "'i round list \<Rightarrow> nat \<Rightarrow> nat \<Rightarrow> score option \<Rightarrow> 'i round list" where
  "putScore schedule ri mi sc =
     schedule[ri := (schedule ! ri)\<lparr>matches :=
        (matches (schedule ! ri))[mi := (matches (schedule ! ri) ! mi)\<lparr>score := sc\<rparr>]\<rparr>]"

text \<open>\<open>setScoreAuto\<close>, as a function of the previous schedule.  \<open>copy[roundIdx]\<close>
  or \<open>matches[matchIdx]\<close> past the end is \<open>undefined\<close>, and reading a property of
  it is a \<open>TypeError\<close>.  The candidate value is an integer here, so
  \<open>Number.isFinite(value)\<close> holds.\<close>

definition setScoreAuto :: "'i round list \<Rightarrow> nat \<Rightarrow> nat \<Rightarrow> int \<Rightarrow> int \<Rightarrow> error + 'i round list" where
  "setScoreAuto prev roundIdx matchIdx v side =
     (if roundIdx < length prev then
        let r = prev ! roundIdx in
        if matchIdx < length (matches r) then
          let m = matches r ! matchIdx;
              (a0, b0) = (case score m of None \<Rightarrow> (0, 0)
                          | Some s \<Rightarrow> (score_team1 s, score_team2 s));
              (a1, b1) = (if side = 1 then (v, clamp24 (24 - v)) else (clamp24 (24 - v), v));
              a = clamp24 a1;
              b = clamp24 b1
          in Inr (prev[roundIdx := r\<lparr>matches :=
                   (matches r)[matchIdx := m\<lparr>score := Some \<lparr>score_team1 = a, score_team2 = b\<rparr>\<rparr>]\<rparr>])
        else Inl TypeError
      else Inl TypeError)"

section \<open>Notions of the specification\<close>

text \<open>What a sort needs of its comparison function: any two elements are comparable,
  and "not after" is transitive.\<close>

definition consistent :: "('a \<Rightarrow> 'a \<Rightarrow> int) \<Rightarrow> bool" where
  "consistent c \<longleftrightarrow>
     (\<forall>x y. c x y \<le> 0 \<or> c y x \<le> 0) \<and> (\<forall>x y z. c x y \<le> 0 \<and> c y z \<le> 0 \<longrightarrow> c x z \<le> 0)"

text \<open>The order of the standings in the words of the specification: points-for
  descending, then wins descending, then differential descending, then name ascending.\<close>

definition standingBefore :: "compare \<Rightarrow> row \<Rightarrow> row \<Rightarrow> bool" where
  "standingBefore cmp x y \<longleftrightarrow>
     pointsFor x > pointsFor y \<or>
     (pointsFor x = pointsFor y \<and>
       (won x > won y \<or>
       (won x = won y \<and>
         (diff x > diff y \<or>
         (diff x = diff y \<and> cmp (row_name x) (row_name y) \<le> 0)))))"

text \<open>The matches of a round on court 7.\<close>

definition court7 :: "'i round \<Rightarrow> 'i match list" where
  "court7 r = filter (\<lambda>m. court m = 7) (matches r)"

text \<open>The player is on the team that faces the Duo on court 7 in the round.\<close>

definition facesDuo :: "pid \<Rightarrow> pid option round \<Rightarrow> bool" where
  "facesDuo p r \<longleftrightarrow>
     (\<exists>m \<in> set (court7 r). team_a (team2 m) = Some p \<or> team_b (team2 m) = Some p)"

text \<open>The Duo's own score and the opponents' score in a match.\<close>

definition duoScore :: "'i \<Rightarrow> 'i \<Rightarrow> 'i match \<Rightarrow> int" where
  "duoScore d m mt =
     (case score mt of None \<Rightarrow> 0
      | Some s \<Rightarrow> if hasDM d m [team_a (team1 mt), team_b (team1 mt)]
                  then score_team1 s else score_team2 s)"

definition oppScore :: "'i \<Rightarrow> 'i \<Rightarrow> 'i match \<Rightarrow> int" where
  "oppScore d m mt =
     (case score mt of None \<Rightarrow> 0
      | Some s \<Rightarrow> if hasDM d m [team_a (team1 mt), team_b (team1 mt)]
                  then score_team2 s else score_team1 s)"

text \<open>The matches the summary counts, in the words of the specification: both Duo ids on
  one team and a score that sums to 24.\<close>

definition duoValid :: "'i \<Rightarrow> 'i \<Rightarrow> 'i round list \<Rightarrow> 'i match list" where
  "duoValid d m schedule =
     filter (\<lambda>mt. duoPlayed d m mt \<and> validScore (score mt)) (concat (map matches schedule))"

text \<open>The counters the specification asks of a list of counted matches.\<close>

definition totalsOf :: "'i \<Rightarrow> 'i \<Rightarrow> 'i match list \<Rightarrow> totals" where
  "totalsOf d m ms =
     \<lparr>t_played = int (length ms),
      t_won = int (length (filter (\<lambda>mt. duoScore d m mt > oppScore d m mt) ms)),
      t_tied = int (length (filter (\<lambda>mt. duoScore d m mt = oppScore d m mt) ms)),
      t_lost = int (length (filter (\<lambda>mt. duoScore d m mt < oppScore d m mt) ms)),
      t_pointsFor = sum_list (map (duoScore d m) ms)\<rparr>"

text \<open>\<open>String.prototype.localeCompare\<close> on names made of ASCII letters, in the default
  collation of the platform: the letters are compared without regard to case, and
  between two names equal up to case the one with the lower-case letter at the first
  difference comes first.  So \<open>alice\<close> comes before \<open>Bob\<close>, and \<open>bob\<close> before
  \<open>Bob\<close>.\<close>

definition isUpper :: "char \<Rightarrow> bool" where
  "isUpper c = (65 \<le> (of_char c :: nat) \<and> (of_char c :: nat) \<le> 90)"

definition localeCompareLetters :: compare where
  "localeCompareLetters a b =
     (if toLowerCase a < toLowerCase b then -1
      else if toLowerCase b < toLowerCase a then 1
      else if map isUpper a < map isUpper b then -1
      else if map isUpper b < map isUpper a then 1
      else 0)"

section \<open>Example data\<close>

text \<open>The initial players of the application.\<close>

definition players0 :: "player list" where
  "players0 = [
     \<lparr>player_id = ''p1'', player_name = ''Daniel''\<rparr>,
     \<lparr>player_id = ''p2'', player_name = ''Macho''\<rparr>,
     \<lparr>player_id = ''p3'', player_name = ''Player 3''\<rparr>,
     \<lparr>player_id = ''p4'', player_name = ''Player 4''\<rparr>,
     \<lparr>player_id = ''p5'', player_name = ''Player 5''\<rparr>,
     \<lparr>player_id = ''p6'', player_name = ''Player 6''\<rparr>,
     \<lparr>player_id = ''p7'', player_name = ''Player 7''\<rparr>,
     \<lparr>player_id = ''p8'', player_name = ''Player 8''\<rparr>,
     \<lparr>player_id = ''p9'', player_name = ''Player 9''\<rparr>,
     \<lparr>player_id = ''p10'', player_name = ''Player 10''\<rparr>,
     \<lparr>player_id = ''p11'', player_name = ''Player 11''\<rparr>,
     \<lparr>player_id = ''p12'', player_name = ''Player 12''\<rparr>]"

text \<open>The same players with the second one renamed to Daniel.\<close>

definition playersTwoDaniels :: "player list" where
  "playersTwoDaniels = players0[1 := \<lparr>player_id = ''p2'', player_name = ''Daniel''\<rparr>]"



text \<open>The example players with four of them renamed, and a round in which these four
  play a 12-12 tie.\<close>

definition playersNamed :: "player list" where
  "playersNamed = players0
     [2 := \<lparr>player_id = ''p3'', player_name = ''Bob''\<rparr>,
      3 := \<lparr>player_id = ''p4'', player_name = ''Dave''\<rparr>,
      4 := \<lparr>player_id = ''p5'', player_name = ''alice''\<rparr>,
      5 := \<lparr>player_id = ''p6'', player_name = ''carol''\<rparr>]"

definition schedNamed :: "pid round list" where
  "schedNamed = [\<lparr>round_no = 1, matches = [
      \<lparr>court = 8, team1 = \<lparr>team_a = ''p3'', team_b = ''p4''\<rparr>,
         team2 = \<lparr>team_a = ''p5'', team_b = ''p6''\<rparr>,
         score = Some \<lparr>score_team1 = 12, score_team2 = 12\<rparr>\<rparr>]\<rparr>]"

definition others0 :: "pid list" where
  "others0 = [''p3'', ''p4'', ''p5'', ''p6'', ''p7'', ''p8'', ''p9'', ''p10'', ''p11'', ''p12'']"

text \<open>The opponents of the Duo that the search finds for \<open>others0\<close>.\<close>

definition pairs0 :: "(pid \<times> pid) option list" where
  "pairs0 = [Some (''p10'', ''p11''), Some (''p12'', ''p3''),
      Some (''p4'', ''p5''), Some (''p6'', ''p7''), Some (''p8'', ''p9''),
      Some (''p10'', ''p12''), Some (''p11'', ''p3''),
      Some (''p4'', ''p6''), Some (''p5'', ''p7''), Some (''p8'', ''p10''),
      Some (''p9'', ''p11''), Some (''p12'', ''p4''), Some (''p3'', ''p5''),
      Some (''p6'', ''p8''), Some (''p7'', ''p9'')]"

text \<open>A round with an invalid score (10-10), a valid one (15-9) and no score.\<close>

definition schedX :: "pid round list" where
  "schedX = [\<lparr>round_no = 1, matches = [
      \<lparr>court = 7, team1 = \<lparr>team_a = ''p1'', team_b = ''p2''\<rparr>,
         team2 = \<lparr>team_a = ''p3'', team_b = ''p4''\<rparr>,
         score = Some \<lparr>score_team1 = 10, score_team2 = 10\<rparr>\<rparr>,
      \<lparr>court = 8, team1 = \<lparr>team_a = ''p5'', team_b = ''p6''\<rparr>,
         team2 = \<lparr>team_a = ''p7'', team_b = ''p8''\<rparr>,
         score = Some \<lparr>score_team1 = 15, score_team2 = 9\<rparr>\<rparr>,
      \<lparr>court = 9, team1 = \<lparr>team_a = ''p2'', team_b = ''p1''\<rparr>,
         team2 = \<lparr>team_a = ''p11'', team_b = ''p12''\<rparr>, score = None\<rparr>]\<rparr>]"

section \<open>Auxiliary notions of the proofs\<close>

text \<open>The ids that occur in the valid-scored matches of a list of matches.\<close>

definition validIds :: "'i match list \<Rightarrow> 'i set" where
  "validIds ms = (\<Union>m \<in> set ms. if validScore (score m) then set (matchIds m) else {})"

text \<open>Every key of \<open>rows\<close> is the \<open>player\<close> field of its row.\<close>

definition keyed :: "rows \<Rightarrow> bool" where
  "keyed rs = (\<forall>(k, r) \<in> set rs. row_player r = k)"

text \<open>Field-wise sum of two sets of counters.\<close>

definition plusTotals :: "totals \<Rightarrow> totals \<Rightarrow> totals" where
  "plusTotals x y =
     \<lparr>t_played = t_played x + t_played y, t_won = t_won x + t_won y,
      t_tied = t_tied x + t_tied y, t_lost = t_lost x + t_lost y,
      t_pointsFor = t_pointsFor x + t_pointsFor y\<rparr>"

text \<open>How often an id occurs in a list of pairs, and in how many of the pairs.\<close>

definition occ :: "pid \<Rightarrow> (pid \<times> pid) option list \<Rightarrow> int" where
  "occ p xs = (\<Sum>e\<leftarrow>xs. case e of None \<Rightarrow> 0
                 | Some (x, y) \<Rightarrow> (if x = p then 1 else 0) + (if y = p then 1 else 0))"

definition picks :: "pid \<Rightarrow> (pid \<times> pid) option list \<Rightarrow> int" where
  "picks p xs = int (length (filter (\<lambda>e. case e of None \<Rightarrow> False | Some (x, y) \<Rightarrow> x = p \<or> y = p) xs))"

text \<open>A call of the search that returns false leaves the counts and the first \<open>k\<close>
  slots as they were.\<close>

definition same :: "nat \<Rightarrow> bstate \<Rightarrow> bstate \<Rightarrow> bool" where
  "same k st st' \<longleftrightarrow>
     counts st' = counts st \<and> length (res st') = length (res st) \<and>
     take k (res st') = take k (res st)"

text \<open>A call that returns true has filled the slots from \<open>k\<close> on with pairs of ids of
  \<open>ids\<close>, has counted them, has picked no id that was at the cap, and has brought every
  id to the cap.\<close>

definition good :: "pid list \<Rightarrow> nat \<Rightarrow> bstate \<Rightarrow> bstate \<Rightarrow> bool" where
  "good ids k st st' \<longleftrightarrow>
     length (res st') = length (res st) \<and> take k (res st') = take k (res st) \<and>
     (\<forall>n. k \<le> n \<and> n < 15 \<longrightarrow>
        (\<exists>x y. res st' ! n = Some (x, y) \<and> x \<in> set ids \<and> y \<in> set ids \<and> (distinct ids \<longrightarrow> x \<noteq> y))) \<and>
     (\<forall>p. counts st' p = counts st p + occ p (drop k (res st'))) \<and>
     (\<forall>p. picks p (drop k (res st')) \<le> max 0 (NEED - counts st p)) \<and>
     (k < 15 \<longrightarrow> (\<forall>p \<in> set ids. NEED \<le> counts st' p))"

definition outcome :: "pid list \<Rightarrow> nat \<Rightarrow> bstate \<Rightarrow> bool \<times> bstate \<Rightarrow> bool" where
  "outcome ids k st r = (if fst r then good ids k st (snd r) else same k st (snd r))"



text \<open>The slots of a list of pairs, in order.\<close>

definition flat :: "('a \<times> 'a) list \<Rightarrow> 'a list" where
  "flat pp = concat (map (\<lambda>(x, y). [x, y]) pp)"

section \<open>Properties of the standings\<close>

lemma keys_ensure: "fst ` set (ensure players i rs) = insert i (fst ` set rs)"
  by (auto simp: ensure_def)

lemma keys_touch: "fst ` set (touch players f i rs) = insert i (fst ` set rs)"
proof -
  have "fst ` set (map (\<lambda>(k, r). if k = i then (k, f r) else (k, r)) xs) = fst ` set xs" for xs :: rows
    by (induction xs) (auto split: if_splits)
  then show ?thesis by (simp add: touch_def keys_ensure del: set_map)
qed

lemma keys_forEach: "fst ` set (forEach players f ids rs) = set ids \<union> fst ` set rs"
  unfolding forEach_def by (induction ids arbitrary: rs) (auto simp: keys_touch)

lemma countMatch_invalid: "\<not> validScore (score m) \<Longrightarrow> countMatch players m rs = rs"
  by (auto simp: countMatch_def validScore_def Let_def split: option.splits)

lemma keys_countMatch:
  "fst ` set (countMatch players m rs) =
     (if validScore (score m) then set (matchIds m) else {}) \<union> fst ` set rs"
proof (cases "validScore (score m)")
  case False
  then show ?thesis by (simp add: countMatch_invalid)
next
  case True
  then obtain s where s: "score m = Some s" "score_team1 s + score_team2 s = 24"
    by (auto simp: validScore_def split: option.splits)
  show ?thesis using True s
    by (auto simp: countMatch_def Let_def keys_forEach matchIds_def)
qed

lemma validIds_simps:
  "validIds [] = {}"
  "validIds (m # ms) = (if validScore (score m) then set (matchIds m) else {}) \<union> validIds ms"
  "validIds (ms @ ms') = validIds ms \<union> validIds ms'"
  by (auto simp: validIds_def)

lemma keys_fold_countMatch:
  "fst ` set (fold (countMatch players) ms rs) = validIds ms \<union> fst ` set rs"
proof (induction ms arbitrary: rs)
  case Nil
  show ?case by (simp add: validIds_simps)
next
  case (Cons m ms)
  show ?case
    unfolding fold_Cons comp_apply Cons.IH keys_countMatch validIds_simps by blast
qed

lemma keys_fold_rounds:
  "fst ` set (fold (\<lambda>r rs. fold (countMatch players) (matches r) rs) schedule rs) =
     validIds (concat (map matches schedule)) \<union> fst ` set rs"
proof (induction schedule arbitrary: rs)
  case Nil
  show ?case by (simp add: validIds_simps)
next
  case (Cons r schedule)
  show ?case
    unfolding fold_Cons comp_apply Cons.IH keys_fold_countMatch list.map concat.simps validIds_simps
    by blast
qed

lemma keys_countAll:
  "fst ` set (countAll players schedule) = validIds (concat (map matches schedule))"
  by (simp add: countAll_def keys_fold_rounds)

lemma validIds_iff:
  "i \<in> validIds (concat (map matches schedule)) \<longleftrightarrow>
     (\<exists>r \<in> set schedule. \<exists>m \<in> set (matches r). validScore (score m) \<and> i \<in> set (matchIds m))"
  unfolding validIds_def by (auto split: if_splits)

lemma keyed_touch: "keyed rs \<Longrightarrow> (\<And>r. row_player (f r) = row_player r) \<Longrightarrow> keyed (touch players f i rs)"
  by (auto simp: keyed_def touch_def ensure_def split: if_splits)

lemma keyed_forEach: "keyed rs \<Longrightarrow> (\<And>r. row_player (f r) = row_player r) \<Longrightarrow> keyed (forEach players f ids rs)"
  unfolding forEach_def by (induction ids arbitrary: rs) (auto simp: keyed_touch)

lemma keyed_countMatch: "keyed rs \<Longrightarrow> keyed (countMatch players m rs)"
  by (auto simp: countMatch_def Let_def keyed_forEach split: option.splits)

lemma keyed_fold_countMatch: "keyed rs \<Longrightarrow> keyed (fold (countMatch players) ms rs)"
  by (induction ms arbitrary: rs) (auto simp: keyed_countMatch)

lemma keyed_countAll: "keyed (countAll players schedule)"
proof -
  have "keyed rs \<Longrightarrow> keyed (fold (\<lambda>r rs. fold (countMatch players) (matches r) rs) schedule rs)" for rs
    by (induction schedule arbitrary: rs) (auto simp: keyed_fold_countMatch)
  from this [of "[]"] show ?thesis by (simp add: countAll_def keyed_def)
qed

lemma mset_insort_by: "mset (insort_by c x ys) = add_mset x (mset ys)"
  by (induction ys) auto

lemma mset_sort_by: "mset (sort_by c xs) = mset xs"
  unfolding sort_by_def by (induction xs) (auto simp: mset_insort_by)

lemma set_sort_by: "set (sort_by c xs) = set xs"
  using mset_sort_by [of c xs] by (metis set_mset_mset)

lemma players_computeStats:
  "row_player ` set (computeStats cmp schedule players) = fst ` set (countAll players schedule)"
proof -
  have *: "map row_player (map (\<lambda>(k, r). r\<lparr>diff := pointsFor r - pointsAgainst r\<rparr>) rs) = map fst rs"
    if "keyed rs" for rs
    using that by (induction rs) (auto simp: keyed_def)
  have "row_player ` set (computeStats cmp schedule players) =
      set (map row_player (map (\<lambda>(k, r). r\<lparr>diff := pointsFor r - pointsAgainst r\<rparr>) (countAll players schedule)))"
    unfolding computeStats_def set_sort_by by (simp only: set_map)
  also have "\<dots> = set (map fst (countAll players schedule))"
    by (simp only: * [OF keyed_countAll])
  finally show ?thesis by (simp only: set_map)
qed

lemma fold_update_same:
  "i < length xs \<Longrightarrow> f y = f (xs ! i) \<Longrightarrow> fold f (xs[i := y]) s = fold f xs s"
proof (induction xs arbitrary: i s)
  case Nil
  then show ?case by simp
next
  case (Cons x xs)
  then show ?case by (cases i) simp_all
qed

lemma set_insort_by: "set (insort_by c x ys) = insert x (set ys)"
  by (induction ys) auto

lemma sorted_insort_by:
  assumes "consistent c" and "sorted_wrt (\<lambda>x y. c x y \<le> 0) ys"
  shows "sorted_wrt (\<lambda>x y. c x y \<le> 0) (insort_by c x ys)"
  using assms(2)
proof (induction ys)
  case Nil
  then show ?case by simp
next
  case (Cons y ys)
  show ?case
  proof (cases "c x y \<le> 0")
    case True
    have "c x z \<le> 0" if "z \<in> set ys" for z
      using assms(1) True Cons.prems that unfolding consistent_def by (metis sorted_wrt.simps(2))
    with True Cons.prems show ?thesis by auto
  next
    case False
    then have "c y x \<le> 0" using assms(1) unfolding consistent_def by blast
    with False Cons show ?thesis by (auto simp: set_insort_by)
  qed
qed

lemma sorted_sort_by:
  "consistent c \<Longrightarrow> sorted_wrt (\<lambda>x y. c x y \<le> 0) (sort_by c xs)"
  unfolding sort_by_def by (induction xs) (simp_all add: sorted_insort_by)

lemma rowCompare_le: "rowCompare cmp x y \<le> 0 \<longleftrightarrow> standingBefore cmp x y"
  by (auto simp: rowCompare_def standingBefore_def)

lemma consistent_rowCompare: "consistent cmp \<Longrightarrow> consistent (rowCompare cmp)"
proof -
  assume c: "consistent cmp"
  have tot: "cmp a b \<le> 0 \<or> cmp b a \<le> 0" for a b using c unfolding consistent_def by blast
  have tr: "cmp a b \<le> 0 \<Longrightarrow> cmp b d \<le> 0 \<Longrightarrow> cmp a d \<le> 0" for a b d
    using c unfolding consistent_def by blast
  have 1: "standingBefore cmp x y \<or> standingBefore cmp y x" for x y
    using tot [of "row_name x" "row_name y"] unfolding standingBefore_def by linarith
  have 2: "standingBefore cmp x z" if "standingBefore cmp x y" "standingBefore cmp y z" for x y z
    using that tr [of "row_name x" "row_name y" "row_name z"] unfolding standingBefore_def
    by linarith
  show ?thesis
    unfolding consistent_def [of "rowCompare cmp"] rowCompare_le using 1 2 by blast
qed

lemma consistent_codeUnitCompare: "consistent codeUnitCompare"
  unfolding consistent_def codeUnitCompare_def by (auto split: if_splits)

lemma countMatch_removed:
  "\<not> validScore (score m) \<Longrightarrow> countMatch players (m\<lparr>score := None\<rparr>) = countMatch players m"
  by (rule ext) (simp add: countMatch_invalid validScore_def)

text \<open>
  C4.  A match whose score is absent or does not sum to 24 contributes nothing to the
  standings: they are the standings of the schedule with the score of that match removed.
\<close>

theorem computeStats_ignores_invalid:
  assumes "ri < length schedule" and "mi < length (matches (schedule ! ri))"
    and "\<not> validScore (score (matches (schedule ! ri) ! mi))"
  shows "computeStats cmp schedule players = computeStats cmp (putScore schedule ri mi None) players"
proof -
  let ?r = "schedule ! ri"
  let ?m = "matches ?r ! mi"
  let ?f = "\<lambda>r rs. fold (countMatch players) (matches r) rs"
  have "?f (?r\<lparr>matches := (matches ?r)[mi := ?m\<lparr>score := None\<rparr>]\<rparr>) = ?f ?r"
    by (rule ext) (simp add: fold_update_same [OF assms(2)] countMatch_removed [OF assms(3)])
  then have "countAll players (putScore schedule ri mi None) = countAll players schedule"
    unfolding countAll_def putScore_def by (rule fold_update_same [OF assms(1)])
  then show ?thesis by (simp add: computeStats_def)
qed

theorem computeStats_ignores_invalid_witness:
  "0 < length schedX \<and> 0 < length (matches (schedX ! 0)) \<and>
   score (matches (schedX ! 0) ! 0) = Some \<lparr>score_team1 = 10, score_team2 = 10\<rparr> \<and>
   \<not> validScore (score (matches (schedX ! 0) ! 0)) \<and>
   computeStats codeUnitCompare schedX players0 =
     computeStats codeUnitCompare (putScore schedX 0 0 None) players0"
proof -
  have 1: "0 < length schedX" and 2: "0 < length (matches (schedX ! 0))"
    and 3: "score (matches (schedX ! 0) ! 0) = Some \<lparr>score_team1 = 10, score_team2 = 10\<rparr>"
    by (simp_all add: schedX_def)
  have 4: "\<not> validScore (score (matches (schedX ! 0) ! 0))"
    by (simp add: 3 validScore_def)
  show ?thesis
    using 1 2 3 4 computeStats_ignores_invalid [OF 1 2 4, of codeUnitCompare players0] by blast
qed

lemma consistent_localeCompareLetters: "consistent localeCompareLetters"
proof -
  have le: "localeCompareLetters a b \<le> 0 \<longleftrightarrow>
      toLowerCase a < toLowerCase b \<or>
      (toLowerCase a = toLowerCase b \<and> map isUpper a \<le> map isUpper b)" for a b
    by (auto simp: localeCompareLetters_def)
  show ?thesis
    unfolding consistent_def le by (intro conjI allI impI) (auto simp: not_less)
qed

lemma standings_named:
  "computeStats localeCompareLetters schedNamed playersNamed =
     [\<lparr>row_player = ''p5'', row_name = ''alice'', played = 1, won = 0, tied = 1, lost = 0,
        pointsFor = 12, pointsAgainst = 12, diff = 0\<rparr>,
      \<lparr>row_player = ''p3'', row_name = ''Bob'', played = 1, won = 0, tied = 1, lost = 0,
        pointsFor = 12, pointsAgainst = 12, diff = 0\<rparr>,
      \<lparr>row_player = ''p6'', row_name = ''carol'', played = 1, won = 0, tied = 1, lost = 0,
        pointsFor = 12, pointsAgainst = 12, diff = 0\<rparr>,
      \<lparr>row_player = ''p4'', row_name = ''Dave'', played = 1, won = 0, tied = 1, lost = 0,
        pointsFor = 12, pointsAgainst = 12, diff = 0\<rparr>]"
  by code_simp

text \<open>
  C5 as stated fails: the names are ordered by \<open>localeCompare\<close>, which is not the
  lexicographic order of code units.  With four rows equal in points-for, wins and
  differential, the standings list alice, Bob, carol, Dave, although Bob is
  lexicographically smaller than alice and Dave than carol.
\<close>

theorem computeStats_name_order_counterexample:
  "map (\<lambda>r. (row_name r, pointsFor r, won r, diff r))
     (computeStats localeCompareLetters schedNamed playersNamed) =
     [(''alice'', 12, 0, 0), (''Bob'', 12, 0, 0), (''carol'', 12, 0, 0), (''Dave'', 12, 0, 0)] \<and>
   ''Bob'' < ''alice'' \<and> ''Dave'' < ''carol'' \<and>
   \<not> sorted_wrt (standingBefore codeUnitCompare)
       (computeStats localeCompareLetters schedNamed playersNamed)"
  unfolding standings_named by (simp add: standingBefore_def codeUnitCompare_def)

text \<open>
  C5, as amended.  The standings are sorted by points-for descending, then wins
  descending, then differential descending, then name ascending in the order of
  \<open>localeCompare\<close>, the platform's comparison of names (a consistent comparison); in
  particular, of two rows equal in points-for, wins and differential, the one that comes
  first has the name that \<open>localeCompare\<close> puts first.  The differential of every row
  is points-for minus points-against.
\<close>

theorem computeStats_sorted:
  assumes "consistent cmp"
  shows "sorted_wrt (standingBefore cmp) (computeStats cmp schedule players) \<and>
         (\<forall>r \<in> set (computeStats cmp schedule players). diff r = pointsFor r - pointsAgainst r) \<and>
         (\<forall>i j. i < j \<and> j < length (computeStats cmp schedule players) \<and>
            pointsFor (computeStats cmp schedule players ! i) =
              pointsFor (computeStats cmp schedule players ! j) \<and>
            won (computeStats cmp schedule players ! i) =
              won (computeStats cmp schedule players ! j) \<and>
            diff (computeStats cmp schedule players ! i) =
              diff (computeStats cmp schedule players ! j) \<longrightarrow>
            cmp (row_name (computeStats cmp schedule players ! i))
                (row_name (computeStats cmp schedule players ! j)) \<le> 0)"
proof (intro conjI allI impI)
  show s: "sorted_wrt (standingBefore cmp) (computeStats cmp schedule players)"
    using sorted_sort_by [OF consistent_rowCompare [OF assms]]
    unfolding computeStats_def rowCompare_le .
  show "\<forall>r \<in> set (computeStats cmp schedule players). diff r = pointsFor r - pointsAgainst r"
    unfolding computeStats_def set_sort_by by auto
  fix i j
  let ?rs = "computeStats cmp schedule players"
  assume a: "i < j \<and> j < length ?rs \<and> pointsFor (?rs ! i) = pointsFor (?rs ! j) \<and>
    won (?rs ! i) = won (?rs ! j) \<and> diff (?rs ! i) = diff (?rs ! j)"
  then have "standingBefore cmp (?rs ! i) (?rs ! j)"
    using s by (simp add: sorted_wrt_iff_nth_less)
  then show "cmp (row_name (?rs ! i)) (row_name (?rs ! j)) \<le> 0"
    using a by (simp add: standingBefore_def)
qed

theorem computeStats_sorted_witness:
  "consistent localeCompareLetters \<and>
   sorted_wrt (standingBefore localeCompareLetters)
     (computeStats localeCompareLetters schedNamed playersNamed) \<and>
   list_all (\<lambda>r. diff r = pointsFor r - pointsAgainst r)
     (computeStats localeCompareLetters schedNamed playersNamed) \<and>
   map row_name (computeStats localeCompareLetters schedNamed playersNamed) =
     [''alice'', ''Bob'', ''carol'', ''Dave''] \<and>
   localeCompareLetters ''alice'' ''Bob'' \<le> 0"
proof -
  let ?rs = "computeStats localeCompareLetters schedNamed playersNamed"
  note t = computeStats_sorted [OF consistent_localeCompareLetters, of schedNamed playersNamed]
  have n: "map row_name ?rs = [''alice'', ''Bob'', ''carol'', ''Dave'']"
    by (simp add: standings_named)
  have "0 < (1::nat) \<and> 1 < length ?rs \<and> pointsFor (?rs ! 0) = pointsFor (?rs ! 1) \<and>
      won (?rs ! 0) = won (?rs ! 1) \<and> diff (?rs ! 0) = diff (?rs ! 1)"
    by (simp add: standings_named)
  then have "localeCompareLetters (row_name (?rs ! 0)) (row_name (?rs ! 1)) \<le> 0"
    using t by blast
  then have c: "localeCompareLetters ''alice'' ''Bob'' \<le> 0"
    by (simp add: standings_named)
  show ?thesis
    using consistent_localeCompareLetters t n c unfolding list_all_iff by blast
qed

text \<open>
  C10.  The standings have a row exactly for the ids that occur in a match with a valid
  score: a player absent from all of them has no row, and a schedule without a valid
  score has no rows at all.
\<close>

theorem computeStats_rows:
  "row_player ` set (computeStats cmp schedule players) =
     {i. \<exists>r \<in> set schedule. \<exists>m \<in> set (matches r). validScore (score m) \<and> i \<in> set (matchIds m)} \<and>
   ((\<forall>r \<in> set schedule. \<forall>m \<in> set (matches r). \<not> validScore (score m)) \<longrightarrow>
     computeStats cmp schedule players = [])"
proof
  show "row_player ` set (computeStats cmp schedule players) =
     {i. \<exists>r \<in> set schedule. \<exists>m \<in> set (matches r). validScore (score m) \<and> i \<in> set (matchIds m)}"
  proof (rule set_eqI)
    fix i
    show "i \<in> row_player ` set (computeStats cmp schedule players) \<longleftrightarrow>
      i \<in> {i. \<exists>r \<in> set schedule. \<exists>m \<in> set (matches r). validScore (score m) \<and> i \<in> set (matchIds m)}"
      by (simp only: players_computeStats keys_countAll validIds_iff mem_Collect_eq)
  qed
  show "(\<forall>r \<in> set schedule. \<forall>m \<in> set (matches r). \<not> validScore (score m)) \<longrightarrow>
     computeStats cmp schedule players = []"
  proof
    assume a: "\<forall>r \<in> set schedule. \<forall>m \<in> set (matches r). \<not> validScore (score m)"
    have "validIds (concat (map matches schedule)) = {}"
      using a by (auto simp: validIds_def)
    then have "countAll players schedule = []"
      using keys_countAll [of players schedule] by simp
    then show "computeStats cmp schedule players = []"
      by (simp add: computeStats_def sort_by_def)
  qed
qed

theorem computeStats_rows_witness:
  "list_all (\<lambda>r. list_all (\<lambda>m. \<not> validScore (score m)) (matches r)) (putScore schedX 0 1 None) \<and>
   computeStats codeUnitCompare (putScore schedX 0 1 None) players0 = [] \<and>
   row_player ` set (computeStats codeUnitCompare schedX players0) =
     {i. \<exists>r \<in> set schedX. \<exists>m \<in> set (matches r). validScore (score m) \<and> i \<in> set (matchIds m)}"
proof -
  have h: "list_all (\<lambda>r. list_all (\<lambda>m. \<not> validScore (score m)) (matches r)) (putScore schedX 0 1 None)"
    by (simp add: schedX_def putScore_def validScore_def)
  show ?thesis
    using h computeStats_rows [of codeUnitCompare "putScore schedX 0 1 None" players0]
      computeStats_rows [of codeUnitCompare schedX players0]
    unfolding list_all_iff by blast
qed

section \<open>Properties of the Duo game log and summary\<close>

lemma fold_dmGame:
  "fold (dmGame d m players rno) ms games =
     games @ map (gameEntry d m players rno) (filter (duoPlayed d m) ms)"
  by (induction ms arbitrary: games) (simp_all add: dmGame_def)

lemma fold_dmGame_rounds:
  "fold (\<lambda>r games. fold (dmGame d m players (round_no r)) (matches r) games) schedule games =
     games @ concat (map (\<lambda>r. map (gameEntry d m players (round_no r))
                                  (filter (duoPlayed d m) (matches r))) schedule)"
  by (induction schedule arbitrary: games) (simp_all add: fold_dmGame)

lemma gameEntry_fields:
  "game_round (gameEntry d m players rno mt) = rno"
  "(\<exists>y. game_score (gameEntry d m players rno mt) = Some y) \<longleftrightarrow> (\<exists>y. score mt = Some y)"
  "(\<exists>y. result (gameEntry d m players rno mt) = Some y) \<longleftrightarrow> (\<exists>y. score mt = Some y)"
  by (simp_all add: gameEntry_def Let_def split: option.splits prod.splits)

text \<open>
  C6, as amended.  The game log applies no filter on the score: every match in which the
  Duo played gives one entry, in the order of the schedule, and the entry has a score text
  and a result letter exactly when the match has a score, whatever its sum.
\<close>

theorem dmStats_lists_every_duo_match:
  "dmStats schedule d m players =
     [gameEntry d m players (round_no r) mt. r \<leftarrow> schedule, mt \<leftarrow> matches r, duoPlayed d m mt] \<and>
   map (\<lambda>g. (game_round g, game_score g \<noteq> None, result g \<noteq> None)) (dmStats schedule d m players) =
     [(round_no r, score mt \<noteq> None, score mt \<noteq> None).
        r \<leftarrow> schedule, mt \<leftarrow> matches r, duoPlayed d m mt]"
proof -
  have c: "concat (map (\<lambda>mt. if P mt then [f mt] else []) ms) = map f (filter P ms)"
    for P and f :: "'a \<Rightarrow> 'b" and ms
    by (induction ms) simp_all
  have 1: "dmStats schedule d m players =
     [gameEntry d m players (round_no r) mt. r \<leftarrow> schedule, mt \<leftarrow> matches r, duoPlayed d m mt]"
    by (simp add: dmStats_def fold_dmGame_rounds c)
  have 2: "map (\<lambda>g. (game_round g, game_score g \<noteq> None, result g \<noteq> None))
      (concat (map (\<lambda>r. map (gameEntry d m players (round_no r)) (filter (duoPlayed d m) (matches r))) schedule)) =
     concat (map (\<lambda>r. map (\<lambda>mt. (round_no r, score mt \<noteq> None, score mt \<noteq> None))
       (filter (duoPlayed d m) (matches r))) schedule)"
    by (induction schedule) (simp_all add: gameEntry_fields)
  show ?thesis
    using 1 2 by (simp add: dmStats_def fold_dmGame_rounds c)
qed

text \<open>
  C6 as stated fails: in \<open>schedX\<close> the Duo plays a match scored 10-10, which the
  standings leave out (no row for p1 to p4), and an unscored one; the game log has an
  entry for both.
\<close>

theorem dmStats_unfiltered_counterexample:
  "dmStats schedX ''p1'' ''p2'' players0 =
     [\<lparr>game_round = 1, oppNames = ''Player 3 & Player 4'', game_score = Some ''10-10'',
        result = Some ''T''\<rparr>,
      \<lparr>game_round = 1, oppNames = ''Player 11 & Player 12'', game_score = None,
        result = None\<rparr>] \<and>
   map row_player (computeStats codeUnitCompare schedX players0) = [''p5'', ''p6'', ''p7'', ''p8'']"
  by code_simp

lemma dmCount_step:
  "dmCount d m mt t =
     (if duoPlayed d m mt \<and> validScore (score mt) then plusTotals t (totalsOf d m [mt]) else t)"
  by (cases "score mt")
    (auto simp: dmCount_def Let_def validScore_def plusTotals_def totalsOf_def duoScore_def
      oppScore_def)

lemma totalsOf_Cons:
  "plusTotals (plusTotals t (totalsOf d m [mt])) (totalsOf d m ms) = plusTotals t (totalsOf d m (mt # ms))"
  by (simp add: plusTotals_def totalsOf_def)

lemma plusTotals_Nil: "plusTotals t (totalsOf d m []) = t"
  by (simp add: plusTotals_def totalsOf_def)

lemma fold_dmCount:
  "fold (dmCount d m) ms t =
     plusTotals t (totalsOf d m (filter (\<lambda>mt. duoPlayed d m mt \<and> validScore (score mt)) ms))"
proof (induction ms arbitrary: t)
  case Nil
  show ?case by (simp add: plusTotals_Nil)
next
  case (Cons mt ms)
  have "fold (dmCount d m) (mt # ms) t = fold (dmCount d m) ms (dmCount d m mt t)"
    by simp
  also have "\<dots> = plusTotals (dmCount d m mt t)
      (totalsOf d m (filter (\<lambda>mt. duoPlayed d m mt \<and> validScore (score mt)) ms))"
    by (rule Cons.IH)
  also have "\<dots> = plusTotals t
      (totalsOf d m (filter (\<lambda>mt. duoPlayed d m mt \<and> validScore (score mt)) (mt # ms)))"
    unfolding dmCount_step [of d m mt t] by (simp add: totalsOf_Cons)
  finally show ?case .
qed

lemma totalsOf_append:
  "plusTotals (plusTotals t (totalsOf d m xs)) (totalsOf d m ys) = plusTotals t (totalsOf d m (xs @ ys))"
  by (simp add: plusTotals_def totalsOf_def)

lemma fold_dmCount_rounds:
  "fold (\<lambda>r t. fold (dmCount d m) (matches r) t) schedule t =
     plusTotals t (totalsOf d m (duoValid d m schedule))"
proof (induction schedule arbitrary: t)
  case Nil
  show ?case by (simp add: duoValid_def plusTotals_Nil)
next
  case (Cons r schedule)
  let ?P = "\<lambda>mt. duoPlayed d m mt \<and> validScore (score mt)"
  have "fold (\<lambda>r t. fold (dmCount d m) (matches r) t) (r # schedule) t =
      fold (\<lambda>r t. fold (dmCount d m) (matches r) t) schedule (fold (dmCount d m) (matches r) t)"
    by simp
  also have "\<dots> = plusTotals (fold (dmCount d m) (matches r) t) (totalsOf d m (duoValid d m schedule))"
    by (rule Cons.IH)
  also have "\<dots> = plusTotals (plusTotals t (totalsOf d m (filter ?P (matches r))))
        (totalsOf d m (duoValid d m schedule))"
    by (simp only: fold_dmCount)
  also have "\<dots> = plusTotals t (totalsOf d m (filter ?P (matches r) @ duoValid d m schedule))"
    by (rule totalsOf_append)
  also have "filter ?P (matches r) @ duoValid d m schedule = duoValid d m (r # schedule)"
    by (simp add: duoValid_def)
  finally show ?case .
qed

lemma dmTotals_eq: "dmTotals schedule d m = totalsOf d m (duoValid d m schedule)"
  by (simp add: dmTotals_def fold_dmCount_rounds) (simp add: plusTotals_def totalsOf_def)

lemma dmSummary_eq:
  "dmSummary schedule d m =
     (let t = totalsOf d m (duoValid d m schedule) in
      \<lparr>s_played = t_played t, s_won = t_won t, s_tied = t_tied t, s_lost = t_lost t,
       s_avg = (if duoValid d m schedule = [] then 0
                else of_int (t_pointsFor t) / of_int (t_played t))\<rparr>)"
  by (simp add: dmSummary_def dmTotals_eq Let_def) (simp add: totalsOf_def)

lemma clamp24_idem: "clamp24 (clamp24 x) = clamp24 x"
  by (simp add: clamp24_def)

section \<open>Properties of the score entry\<close>

lemma setScoreAuto_eq:
  assumes "ri < length schedule" and "mi < length (matches (schedule ! ri))"
  shows "setScoreAuto schedule ri mi v side =
     Inr (putScore schedule ri mi
       (Some (if side = 1 then \<lparr>score_team1 = clamp24 v, score_team2 = clamp24 (24 - v)\<rparr>
              else \<lparr>score_team1 = clamp24 (24 - v), score_team2 = clamp24 v\<rparr>)))"
  using assms
  by (simp add: setScoreAuto_def putScore_def Let_def clamp24_idem split: prod.splits option.splits)

text \<open>
  C8.  For a round index and a match index inside the schedule, the update returns the
  schedule with the score of that one match replaced and everything else as it was: the
  edited side is the value clamped to 0..24, the other side is 24 minus the value, clamped
  to 0..24.  Side 1 edits \<open>team1\<close>, any other side \<open>team2\<close>.
\<close>

theorem setScoreAuto_updates:
  assumes "ri < length schedule" and "mi < length (matches (schedule ! ri))"
  shows "setScoreAuto schedule ri mi v side =
     Inr (putScore schedule ri mi
       (Some (if side = 1
              then \<lparr>score_team1 = max 0 (min 24 v), score_team2 = max 0 (min 24 (24 - v))\<rparr>
              else \<lparr>score_team1 = max 0 (min 24 (24 - v)), score_team2 = max 0 (min 24 v)\<rparr>)))"
  using assms
  by (simp add: setScoreAuto_def putScore_def Let_def clamp24_idem split: prod.splits option.splits)
    (simp add: clamp24_def)

theorem setScoreAuto_updates_witness:
  "0 < length schedX \<and> 2 < length (matches (schedX ! 0)) \<and>
   score (matches (schedX ! 0) ! 2) = None \<and>
   setScoreAuto schedX 0 2 30 1 =
     Inr (putScore schedX 0 2 (Some \<lparr>score_team1 = 24, score_team2 = 0\<rparr>))"
proof -
  have 1: "0 < length schedX" and 2: "2 < length (matches (schedX ! 0))"
    and 3: "score (matches (schedX ! 0) ! 2) = None"
    by (simp_all add: schedX_def)
  show ?thesis
    using 1 2 3 setScoreAuto_updates [OF 1 2, of 30 1] by simp
qed

section \<open>Properties of the search for the opponents of the Duo\<close>

text \<open>The invariant of \<open>backtrack\<close>: a call that returns false restores the state; a
  call that returns true has filled all later slots within the cap of three picks for
  every id.\<close>

lemma good_length: "good ids k st st' \<Longrightarrow> length (res st') = length (res st)"
  unfolding good_def by blast

lemma good_take: "good ids k st st' \<Longrightarrow> take k (res st') = take k (res st)"
  unfolding good_def by blast

lemma good_nth:
  "good ids k st st' \<Longrightarrow> k \<le> n \<Longrightarrow> n < 15 \<Longrightarrow>
     \<exists>x y. res st' ! n = Some (x, y) \<and> x \<in> set ids \<and> y \<in> set ids \<and> (distinct ids \<longrightarrow> x \<noteq> y)"
  unfolding good_def by blast

lemma good_counts: "good ids k st st' \<Longrightarrow> counts st' p = counts st p + occ p (drop k (res st'))"
  unfolding good_def by blast

lemma good_picks: "good ids k st st' \<Longrightarrow> picks p (drop k (res st')) \<le> max 0 (NEED - counts st p)"
  unfolding good_def by blast

lemma good_final: "good ids k st st' \<Longrightarrow> k < 15 \<Longrightarrow> p \<in> set ids \<Longrightarrow> NEED \<le> counts st' p"
  unfolding good_def by blast

lemma same_refl: "same k st st"
  by (simp add: same_def)

lemma same_trans: "same k st st1 \<Longrightarrow> same k st1 st2 \<Longrightarrow> same k st st2"
  by (simp add: same_def)

lemma good_same:
  assumes "same k st st1" and "good ids k st1 st2"
  shows "good ids k st st2"
proof -
  have c: "counts st1 = counts st" and l: "length (res st1) = length (res st)"
    and t: "take k (res st1) = take k (res st)"
    using assms(1) by (simp_all add: same_def)
  have "good ids k st1 st2 = good ids k st st2"
    unfolding good_def c l t by (rule refl)
  with assms(2) show ?thesis by blast
qed

lemma outcome_same: "same k st st1 \<Longrightarrow> outcome ids k st1 r \<Longrightarrow> outcome ids k st r"
  using good_same same_trans by (auto simp: outcome_def)

lemma counts_undo_choose:
  "counts (undoPair k x y st2) = counts st" if "counts st2 = counts (choosePair k x y st)"
  using that by (auto simp: undoPair_def choosePair_def Let_def fun_eq_iff)

lemma same_undo:
  assumes "same (Suc k) (choosePair k x y st) st2" and "k < length (res st)"
  shows "same k st (undoPair k x y st2)"
proof -
  have c: "counts (undoPair k x y st2) = counts st"
    using assms(1) by (intro counts_undo_choose) (simp add: same_def)
  have l: "length (res st2) = length (res st)"
    using assms by (simp add: same_def choosePair_def Let_def setAt_def)
  have "take k (take (Suc k) (res st2)) = take k (take (Suc k) (res (choosePair k x y st)))"
    using assms(1) by (simp add: same_def)
  then have t: "take k (res st2) = take k (res st)"
    using assms(2) by (simp add: choosePair_def Let_def setAt_def min_def)
  show ?thesis
    using c l t assms(2) by (simp add: same_def undoPair_def Let_def setAt_def)
qed

lemma needTotal_zero:
  assumes "needTotal ids c \<le> 0" and "p \<in> set ids"
  shows "NEED \<le> c p"
proof -
  have *: "fold (\<lambda>i acc. acc + max 0 (NEED - c i)) xs acc \<ge> acc" for xs acc
  proof (induction xs arbitrary: acc)
    case Nil
    show ?case by simp
  next
    case (Cons a xs)
    have "acc \<le> acc + max 0 (NEED - c a)" by simp
    also have "\<dots> \<le> fold (\<lambda>i acc. acc + max 0 (NEED - c i)) xs (acc + max 0 (NEED - c a))"
      by (rule Cons.IH)
    finally show ?case by simp
  qed
  have "p \<in> set xs \<Longrightarrow> fold (\<lambda>i acc. acc + max 0 (NEED - c i)) xs acc \<le> acc \<Longrightarrow> NEED \<le> c p" for xs acc
  proof (induction xs arbitrary: acc)
    case Nil
    then show ?case by simp
  next
    case (Cons a xs)
    have 1: "acc + max 0 (NEED - c a) \<le> fold (\<lambda>i acc. acc + max 0 (NEED - c i)) xs (acc + max 0 (NEED - c a))"
      by (rule *)
    with Cons.prems(2) have 2: "max 0 (NEED - c a) \<le> 0" by simp
    show ?case
    proof (cases "p = a")
      case True
      with 2 show ?thesis by simp
    next
      case False
      with Cons.prems(1) have "p \<in> set xs" by simp
      moreover have "fold (\<lambda>i acc. acc + max 0 (NEED - c i)) xs acc \<le> acc"
        using Cons.prems(2) 2 by (simp add: max_def split: if_splits)
      ultimately show ?thesis by (rule Cons.IH)
    qed
  qed
  from this [OF assms(2), of 0] assms(1) show ?thesis by (simp add: needTotal_def)
qed

lemma occ_Cons: "occ p (Some (x, y) # xs) = (if x = p then 1 else 0) + (if y = p then 1 else 0) + occ p xs"
  by (simp add: occ_def)

lemma picks_Cons: "picks p (Some (x, y) # xs) = (if x = p \<or> y = p then 1 else 0) + picks p xs"
  by (simp add: picks_def)

lemma picks_nonneg: "0 \<le> picks p xs"
  by (simp add: picks_def)

lemma good_step:
  assumes g: "good ids (Suc k) (choosePair k x y st) st2"
    and len: "length (res st) = 15" and k: "k < 15"
    and mem: "x \<in> set ids" "y \<in> set ids" "distinct ids \<longrightarrow> x \<noteq> y"
    and lt: "counts st x < NEED" "counts st y < NEED"
    and feas: "feasible ids k (choosePair k x y st)"
    and last: "Suc k = 15 \<longrightarrow> st2 = choosePair k x y st"
  shows "good ids k st st2"
proof -
  let ?st1 = "choosePair k x y st"
  have res1: "res ?st1 = (res st)[k := Some (x, y)]"
    using len k by (simp add: choosePair_def Let_def setAt_def)
  have c1: "counts ?st1 p = counts st p + (if x = p then 1 else 0) + (if y = p then 1 else 0)" for p
    by (auto simp: choosePair_def Let_def)
  have l2: "length (res st2) = 15"
    using good_length [OF g] len res1 by simp
  have t2: "take (Suc k) (res st2) = take (Suc k) ((res st)[k := Some (x, y)])"
    using good_take [OF g] res1 by simp
  have "take (Suc k) (res st2) ! k = take (Suc k) ((res st)[k := Some (x, y)]) ! k"
    by (simp only: t2)
  then have at_k: "res st2 ! k = Some (x, y)"
    using len k by simp
  have "take k (take (Suc k) (res st2)) = take k (take (Suc k) ((res st)[k := Some (x, y)]))"
    by (simp only: t2)
  then have tk: "take k (res st2) = take k (res st)"
    by (simp add: min_def)
  have dk: "drop k (res st2) = Some (x, y) # drop (Suc k) (res st2)"
    using l2 k at_k by (metis Cons_nth_drop_Suc)
  have nth: "\<exists>u v. res st2 ! n = Some (u, v) \<and> u \<in> set ids \<and> v \<in> set ids \<and> (distinct ids \<longrightarrow> u \<noteq> v)"
    if "k \<le> n" "n < 15" for n
  proof (cases "n = k")
    case True
    then show ?thesis using at_k mem by simp
  next
    case False
    then have "Suc k \<le> n" using that by simp
    then show ?thesis using good_nth [OF g] that by blast
  qed
  have cnt: "counts st2 p = counts st p + occ p (drop k (res st2))" for p
  proof -
    have "counts st2 p = counts ?st1 p + occ p (drop (Suc k) (res st2))"
      by (rule good_counts [OF g])
    then show ?thesis by (simp add: dk occ_Cons c1)
  qed
  have pk: "picks p (drop k (res st2)) \<le> max 0 (NEED - counts st p)" for p
  proof -
    have a: "picks p (drop (Suc k) (res st2)) \<le> max 0 (NEED - counts ?st1 p)"
      by (rule good_picks [OF g])
    show ?thesis
    proof (cases "x = p \<or> y = p")
      case True
      then have "counts st p < NEED" using lt by auto
      moreover have "counts st p + 1 \<le> counts ?st1 p" using True c1 [of p] by auto
      ultimately show ?thesis using a True by (simp add: dk picks_Cons max_def split: if_splits)
    next
      case False
      then have "counts ?st1 p = counts st p" using c1 [of p] by auto
      then show ?thesis using a False by (simp add: dk picks_Cons)
    qed
  qed
  have fin: "NEED \<le> counts st2 p" if "p \<in> set ids" for p
  proof (cases "Suc k = 15")
    case True
    then have "st2 = ?st1" using last by simp
    moreover have "needTotal ids (counts ?st1) \<le> 0"
      using feas True by (simp add: feasible_def)
    ultimately show ?thesis using needTotal_zero that by simp
  next
    case False
    then have "Suc k < 15" using k by simp
    then show ?thesis using good_final [OF g] that by blast
  qed
  show ?thesis
    unfolding good_def
  proof (intro conjI allI impI ballI)
    show "length (res st2) = length (res st)" using l2 len by simp
    show "take k (res st2) = take k (res st)" by (rule tk)
    show "\<exists>u v. res st2 ! n = Some (u, v) \<and> u \<in> set ids \<and> v \<in> set ids \<and> (distinct ids \<longrightarrow> u \<noteq> v)"
      if "k \<le> n \<and> n < 15" for n using nth that by blast
    show "counts st2 p = counts st p + occ p (drop k (res st2))" for p by (rule cnt)
    show "picks p (drop k (res st2)) \<le> max 0 (NEED - counts st p)" for p by (rule pk)
    show "NEED \<le> counts st2 p" if "p \<in> set ids" for p using that by (rule fin)
  qed
qed

lemma good_self: "length (res st) = 15 \<Longrightarrow> good ids 15 st st"
  unfolding good_def by (auto simp: occ_def picks_def)

lemma outcome_False: "outcome ids k st (False, st)"
  by (simp add: outcome_def same_refl)

lemma same_counts: "same k st st' \<Longrightarrow> counts st' = counts st"
  by (simp add: same_def)

lemma same_length: "same k st st' \<Longrightarrow> length (res st') = length (res st)"
  by (simp add: same_def)

lemma same_Suc: "same (Suc k) st st' \<Longrightarrow> same k st st'"
proof -
  assume a: "same (Suc k) st st'"
  then have "take k (take (Suc k) (res st')) = take k (take (Suc k) (res st))"
    by (simp add: same_def)
  then have "take k (res st') = take k (res st)" by (simp add: min_def)
  with a show ?thesis by (simp add: same_def)
qed

lemma length_choosePair: "k < length (res st) \<Longrightarrow> length (res (choosePair k x y st)) = length (res st)"
  by (simp add: choosePair_def Let_def setAt_def)

lemma backtrack_outcome:
  "length (res st) = 15 \<Longrightarrow> k \<le> 15 \<Longrightarrow> outcome ids k st (backtrack cmp ids k st)"
  "length (res st) = 15 \<Longrightarrow> k < 15 \<Longrightarrow> mset pool = mset ids \<Longrightarrow>
     outcome ids k st (loop_i cmp ids k pool i st)"
  "length (res st) = 15 \<Longrightarrow> k < 15 \<Longrightarrow> mset pool = mset ids \<Longrightarrow> i < j \<Longrightarrow>
     i < length pool \<Longrightarrow> counts st (pool ! i) < NEED \<Longrightarrow>
     outcome ids k st (loop_j cmp ids k pool i j st)"
proof (induction cmp ids k st and cmp ids k pool i st and cmp ids k pool i j st
    rule: backtrack_loop_i_loop_j.induct)
  case (1 cmp ids k st)
  show ?case
  proof (cases "k = 15")
    case True
    then show ?thesis using "1.prems"(1) by (simp add: backtrack.simps outcome_def good_self)
  next
    case False
    then have "k < 15" using "1.prems" by simp
    moreover have "mset (sort_by (poolCompare cmp (counts st)) ids) = mset ids"
      by (rule mset_sort_by)
    ultimately show ?thesis
      using "1.IH" [OF False "1.prems"(1)] False by (simp add: backtrack.simps)
  qed
next
  case (2 cmp ids k pool i st)
  show ?case
  proof (cases "i < length pool")
    case False
    then show ?thesis by (simp add: loop_i.simps outcome_False)
  next
    case True
    show ?thesis
    proof (cases "NEED \<le> counts st (pool ! i)")
      case full: True
      show ?thesis
        using "2.IH"(1) [OF True full "2.prems"] True full by (simp add: loop_i.simps)
    next
      case room: False
      then have lt: "counts st (pool ! i) < NEED" by simp
      have oj: "outcome ids k st (loop_j cmp ids k pool i (i + 1) st)"
        using "2.IH"(2) [OF True room "2.prems"(1,2,3) _ True lt] by simp
      obtain x y where xy: "loop_j cmp ids k pool i (i + 1) st = (x, y)"
        by (cases "loop_j cmp ids k pool i (i + 1) st")
      show ?thesis
      proof (cases x)
        case True
        then show ?thesis
          using oj xy \<open>i < length pool\<close> room by (simp add: loop_i.simps)
      next
        case False
        then have xF: "x = False" by simp
        have s: "same k st y" using oj xy False by (simp add: outcome_def)
        have "outcome ids k y (loop_i cmp ids k pool (i + 1) y)"
          using "2.IH"(3) [OF \<open>i < length pool\<close> room xy [symmetric] xF _ "2.prems"(2,3)]
            same_length [OF s] "2.prems"(1) by simp
        then have "outcome ids k st (loop_i cmp ids k pool (i + 1) y)"
          by (rule outcome_same [OF s])
        then show ?thesis
          using xy False \<open>i < length pool\<close> room by (simp add: loop_i.simps)
      qed
    qed
  qed
next
  case (3 cmp ids k pool i j st)
  let ?x = "pool ! i" and ?y = "pool ! j"
  show ?case
  proof (cases "j < length pool")
    case False
    then show ?thesis by (simp add: loop_j.simps outcome_False)
  next
    case True
    show ?thesis
    proof (cases "NEED \<le> counts st ?y")
      case full: True
      have "i < j + 1" using "3.prems"(4) by simp
      then show ?thesis
        using "3.IH"(1) [OF True full "3.prems"(1,2,3) _ "3.prems"(5,6)] True full
        by (simp add: loop_j.simps)
    next
      case room: False
      show ?thesis
      proof (cases "pairKey ?x ?y \<in> usedPair st")
        case used: True
        have "i < j + 1" using "3.prems"(4) by simp
        then show ?thesis
          using "3.IH"(2) [OF True room used "3.prems"(1,2,3) _ "3.prems"(5,6)] True room used
          by (simp add: loop_j.simps)
      next
        case fresh: False
        define st1 where "st1 = choosePair k ?x ?y st"
        have len1: "length (res st1) = 15"
          using "3.prems"(1,2) by (simp add: st1_def length_choosePair)
        have su: "same k st (undoPair k ?x ?y st2)" if "same (Suc k) st1 st2" for st2
          using that "3.prems"(1,2) unfolding st1_def by (intro same_undo) simp_all
        have next_j: "outcome ids k st (loop_j cmp ids k pool i (j + 1) st3)"
          if s: "same k st st3" and
            ih: "length (res st3) = 15 \<Longrightarrow> k < 15 \<Longrightarrow> mset pool = mset ids \<Longrightarrow> i < j + 1 \<Longrightarrow>
              i < length pool \<Longrightarrow> counts st3 (pool ! i) < NEED \<Longrightarrow>
              outcome ids k st3 (loop_j cmp ids k pool i (j + 1) st3)" for st3
        proof -
          have "outcome ids k st3 (loop_j cmp ids k pool i (j + 1) st3)"
            using ih same_length [OF s] same_counts [OF s] "3.prems" by simp
          then show ?thesis by (rule outcome_same [OF s])
        qed
        show ?thesis
        proof (cases "feasible ids k st1")
          case infeasible: False
          have "same k st (undoPair k ?x ?y st1)"
            by (rule su) (rule same_refl)
          then have "outcome ids k st (loop_j cmp ids k pool i (j + 1) (undoPair k ?x ?y st1))"
            using "3.IH"(5) [OF True room fresh st1_def infeasible] by (rule next_j)
          then show ?thesis
            using True room fresh infeasible by (simp add: loop_j.simps [of _ _ _ _ _ j] st1_def Let_def)
        next
          case feas: True
          have k1: "k + 1 \<le> 15" using "3.prems"(2) by simp
          have ob: "outcome ids (k + 1) st1 (backtrack cmp ids (k + 1) st1)"
            using "3.IH"(3) [OF True room fresh st1_def feas len1 k1] .
          obtain b st2 where bt: "backtrack cmp ids (k + 1) st1 = (b, st2)"
            by (cases "backtrack cmp ids (k + 1) st1")
          show ?thesis
          proof (cases b)
            case False
            then have bF: "b = False" by simp
            have "same (Suc k) st1 st2" using ob bt False by (simp add: outcome_def)
            then have "same k st (undoPair k ?x ?y st2)" by (rule su)
            then have "outcome ids k st (loop_j cmp ids k pool i (j + 1) (undoPair k ?x ?y st2))"
              using "3.IH"(4) [OF True room fresh st1_def feas bt [symmetric] bF] by (rule next_j)
            then show ?thesis
              using True room fresh feas bt False
              by (simp add: loop_j.simps [of _ _ _ _ _ j] st1_def [symmetric] Let_def)
          next
            case succ: True
            then have g: "good ids (Suc k) (choosePair k ?x ?y st) st2"
              using ob bt by (simp add: outcome_def st1_def)
            have xin: "?x \<in> set ids"
              using "3.prems"(3,5) by (metis nth_mem set_mset_mset)
            have yin: "?y \<in> set ids"
              using "3.prems"(3) True by (metis nth_mem set_mset_mset)
            have ne: "distinct ids \<longrightarrow> ?x \<noteq> ?y"
            proof
              assume "distinct ids"
              then have "distinct pool" using "3.prems"(3) by (metis mset_eq_imp_distinct_iff)
              then show "?x \<noteq> ?y"
                using "3.prems"(4,5) True by (simp add: nth_eq_iff_index_eq)
            qed
            have last: "Suc k = 15 \<longrightarrow> st2 = choosePair k ?x ?y st"
              using bt succ by (auto simp: backtrack.simps st1_def)
            have "good ids k st st2"
              using g "3.prems"(1,2) xin yin ne "3.prems"(6) _ _ last
            proof (rule good_step)
              show "counts st ?y < NEED" using room by simp
              show "feasible ids k (choosePair k ?x ?y st)" using feas by (simp add: st1_def)
            qed
            then show ?thesis
              using True room fresh feas bt succ
              by (simp add: loop_j.simps [of _ _ _ _ _ j] st1_def [symmetric] Let_def outcome_def)
          qed
        qed
      qed
    qed
  qed
qed








lemma buildBalanced_result:
  assumes "buildBalancedDmOpponents cmp ids = Inr pairs"
  shows "length pairs = 15"
    and "n < 15 \<Longrightarrow> \<exists>x y. pairs ! n = Some (x, y) \<and> x \<in> set ids \<and> y \<in> set ids \<and> (distinct ids \<longrightarrow> x \<noteq> y)"
    and "picks p pairs \<le> 3"
    and "p \<in> set ids \<Longrightarrow> 3 \<le> occ p pairs"
proof -
  obtain st where bt: "backtrack cmp ids 0 initState = (True, st)" and pairs: "pairs = res st"
    using assms by (auto simp: buildBalancedDmOpponents_def split: prod.splits bool.splits)
  have "outcome ids 0 initState (backtrack cmp ids 0 initState)"
    by (rule backtrack_outcome(1)) (simp_all add: initState_def)
  then have g: "good ids 0 initState st"
    using bt by (simp add: outcome_def)
  show "length pairs = 15"
    using good_length [OF g] by (simp add: pairs initState_def)
  show "\<exists>x y. pairs ! n = Some (x, y) \<and> x \<in> set ids \<and> y \<in> set ids \<and> (distinct ids \<longrightarrow> x \<noteq> y)"
    if "n < 15" using good_nth [OF g _ that] by (simp add: pairs)
  show "picks p pairs \<le> 3"
    using good_picks [OF g, of p] by (simp add: pairs initState_def NEED_def)
  show "3 \<le> occ p pairs" if "p \<in> set ids"
    using good_final [OF g _ that] good_counts [OF g, of p] by (simp add: pairs initState_def NEED_def)
qed

section \<open>Properties of the shuffle\<close>

lemma mulberry32_range: "0 \<le> fst (mulberry32 g) \<and> fst (mulberry32 g) < 1"
proof -
  obtain w :: "32 word" where w: "fst (mulberry32 g) = of_int (uint w) / 4294967296"
    by (simp add: mulberry32_def Let_def del: of_int_uint)
  have a: "0 \<le> uint w" and b: "uint w < 4294967296"
    using uint_bounded [of w] by simp_all
  have "(0::rat) \<le> of_int (uint w)"
    using a by (simp only: of_int_0_le_iff)
  moreover have "(of_int (uint w) :: rat) < of_int 4294967296"
    using b by (simp only: of_int_less_iff)
  ultimately show ?thesis by (simp add: w del: of_int_uint)
qed

lemma randomIndex_le:
  fixes x :: rat
  assumes "0 \<le> x" and "x < 1"
  shows "nat \<lfloor>x * of_nat (Suc i)\<rfloor> \<le> i"
proof -
  have "x * of_nat (Suc i) < of_nat (Suc i)"
    using assms by (simp add: mult_less_cancel_right1)
  then have "\<lfloor>x * of_nat (Suc i)\<rfloor> < int (Suc i)"
    by (simp add: floor_less_iff)
  then show ?thesis by simp
qed

lemma mset_shuffleLoop: "i < length a \<Longrightarrow> mset (fst (shuffleLoop a i g)) = mset a"
proof (induction i arbitrary: a g)
  case 0
  then show ?case by (simp add: shuffleLoop.simps)
next
  case (Suc i)
  obtain x g' where m: "mulberry32 g = (x, g')" by (cases "mulberry32 g")
  define j where "j = nat \<lfloor>x * of_nat (Suc i + 1)\<rfloor>"
  have "nat \<lfloor>x * of_nat (Suc (Suc i))\<rfloor> \<le> Suc i"
    using mulberry32_range [of g] m by (intro randomIndex_le) simp_all
  then have "j \<le> Suc i"
    by (simp add: j_def)
  then have j: "j < length a" using Suc.prems by simp
  let ?a' = "a[Suc i := a ! j, j := a ! Suc i]"
  have "mset ?a' = mset a"
    using Suc.prems j by (simp add: mset_swap)
  moreover have "mset (fst (shuffleLoop ?a' i g')) = mset ?a'"
    using Suc.prems by (intro Suc.IH) simp
  moreover have "shuffleLoop a (Suc i) g = shuffleLoop ?a' i g'"
    by (subst shuffleLoop.simps) (simp add: m j_def Let_def)
  ultimately show ?case by simp
qed

lemma mset_shuffle: "mset (fst (shuffle xs g)) = mset xs"
proof (cases xs)
  case Nil
  then show ?thesis by (simp add: shuffle_def shuffleLoop.simps)
next
  case (Cons x ys)
  then show ?thesis unfolding shuffle_def by (intro mset_shuffleLoop) simp
qed

lemma length_shuffle: "length (fst (shuffle xs g)) = length xs"
  using mset_shuffle [of xs g] by (metis size_mset)

section \<open>Properties of the rounds\<close>

lemma length_pairUp: "length (pairUp xs) = (length xs + 1) div 2"
  by (induction xs rule: pairUp.induct) simp_all

lemma mset_flat_pairUp:
  "mset (flat (pairUp xs)) = mset (map Some xs) + (if odd (length xs) then {#None#} else {#})"
  by (induction xs rule: pairUp.induct) (simp_all add: flat_def)

lemma mset_flat_cong: "mset pp = mset qq \<Longrightarrow> mset (flat pp) = mset (flat qq)"
proof -
  assume a: "mset pp = mset qq"
  have "mset (flat xs) = (\<Sum>\<^sub># (image_mset (\<lambda>(x, y). {#x, y#}) (mset xs)))" for xs :: "('a \<times> 'a) list"
    by (induction xs) (auto simp: flat_def)
  then show ?thesis using a by simp
qed

lemma checkIds_fst: "fst (checkIds ids seen) \<longleftrightarrow> distinct ids \<and> set ids \<inter> seen = {}"
  by (induction ids arbitrary: seen) auto

lemma checkIds_snd: "fst (checkIds ids seen) \<Longrightarrow> snd (checkIds ids seen) = seen \<union> set ids"
  by (induction ids arbitrary: seen) (auto split: if_splits)

lemma card4_distinct: "card (set (matchIds m)) = 4 \<longleftrightarrow> distinct (matchIds m)"
proof -
  have "length (matchIds m) = 4" by (simp add: matchIds_def)
  then show ?thesis by (metis card_distinct distinct_card)
qed

lemma checkMatches_Cons_fst:
  "fst (checkMatches (m # ms) seen) \<longleftrightarrow>
     distinct (matchIds m) \<and> set (matchIds m) \<inter> seen = {} \<and>
     fst (checkMatches ms (seen \<union> set (matchIds m)))"
proof -
  obtain b s where c: "checkIds (matchIds m) seen = (b, s)"
    by (cases "checkIds (matchIds m) seen")
  have b: "b \<longleftrightarrow> distinct (matchIds m) \<and> set (matchIds m) \<inter> seen = {}"
    using checkIds_fst [of "matchIds m" seen] c by simp
  have s: "b \<Longrightarrow> s = seen \<union> set (matchIds m)"
    using checkIds_snd [of "matchIds m" seen] c by simp
  show ?thesis
  proof (cases b)
    case True
    then show ?thesis using b s c by (simp add: card4_distinct)
  next
    case False
    then show ?thesis using b c by (auto simp: card4_distinct)
  qed
qed

lemma checkMatches_Cons_snd:
  "fst (checkMatches (m # ms) seen) \<Longrightarrow>
     snd (checkMatches (m # ms) seen) = snd (checkMatches ms (seen \<union> set (matchIds m)))"
proof -
  assume a: "fst (checkMatches (m # ms) seen)"
  then have d: "distinct (matchIds m)" and i: "set (matchIds m) \<inter> seen = {}"
    by (simp_all only: checkMatches_Cons_fst)
  then have f: "fst (checkIds (matchIds m) seen)" by (simp add: checkIds_fst)
  then have "checkIds (matchIds m) seen = (True, seen \<union> set (matchIds m))"
    using checkIds_snd [OF f] by (simp add: prod_eq_iff)
  then show ?thesis using d by (simp add: card4_distinct)
qed

lemma checkMatches_fst:
  "fst (checkMatches ms seen) \<longleftrightarrow>
     distinct (concat (map matchIds ms)) \<and> set (concat (map matchIds ms)) \<inter> seen = {}"
proof (induction ms arbitrary: seen)
  case Nil
  show ?case by simp
next
  case (Cons m ms)
  show ?case
    unfolding checkMatches_Cons_fst Cons.IH by auto
qed

lemma checkMatches_snd:
  "fst (checkMatches ms seen) \<Longrightarrow>
     snd (checkMatches ms seen) = seen \<union> set (concat (map matchIds ms))"
proof (induction ms arbitrary: seen)
  case Nil
  show ?case by simp
next
  case (Cons m ms)
  have "fst (checkMatches ms (seen \<union> set (matchIds m)))"
    using Cons.prems by (simp only: checkMatches_Cons_fst)
  from Cons.IH [OF this] show ?case
    unfolding checkMatches_Cons_snd [OF Cons.prems] by auto
qed

lemma roundOk_iff:
  "roundOk ms \<longleftrightarrow>
     distinct (concat (map matchIds ms)) \<and> length (concat (map matchIds ms)) = 12"
proof -
  have "roundOk ms \<longleftrightarrow> fst (checkMatches ms {}) \<and> card (snd (checkMatches ms {})) = 12"
    by (simp add: roundOk_def split: prod.splits)
  also have "\<dots> \<longleftrightarrow> distinct (concat (map matchIds ms)) \<and> card (set (concat (map matchIds ms))) = 12"
    using checkMatches_snd [of ms "{}"] by (auto simp: checkMatches_fst)
  also have "\<dots> \<longleftrightarrow> distinct (concat (map matchIds ms)) \<and> length (concat (map matchIds ms)) = 12"
    using distinct_card [of "concat (map matchIds ms)"] by auto
  finally show ?thesis .
qed

lemma slots_roundMatches:
  "length pp = 4 \<Longrightarrow>
     concat (map matchIds (roundMatches D M o1 o2 pp)) = [Some D, Some M, Some o1, Some o2] @ flat pp"
proof -
  assume "length pp = 4"
  then obtain p0 p1 p2 p3 where "pp = [p0, p1, p2, p3]"
    by (auto simp: length_Suc_conv numeral_eq_Suc)
  then show ?thesis
    by (simp add: roundMatches_def matchIds_def flat_def split: prod.splits)
qed

lemma slots_roundMatches_ge:
  "4 \<le> length pp \<Longrightarrow>
     concat (map matchIds (roundMatches D M o1 o2 pp)) = [Some D, Some M, Some o1, Some o2] @ flat (take 4 pp)"
proof -
  assume a: "4 \<le> length pp"
  have "roundMatches D M o1 o2 pp = roundMatches D M o1 o2 (take 4 pp)"
    by (simp add: roundMatches_def)
  moreover have "length (take 4 pp) = 4" using a by simp
  ultimately show ?thesis by (simp only: slots_roundMatches)
qed

lemma buildRound_unfold:
  assumes "r < length pairs" and "pairs ! r = Some (o1, o2)"
    and "shuffle (filter (\<lambda>i. i \<notin> {D, M, o1, o2}) others) g = (arr, g0)"
    and "shuffle (pairUp arr) g0 = (pp, g2)"
  shows "buildRound D M others pairs r g =
     (if length pp < 4 then Inl TypeError
      else if roundOk (roundMatches D M o1 o2 pp)
        then Inr (\<lparr>round_no = r + 1, matches = roundMatches D M o1 o2 pp\<rparr>, g2)
        else Inl (RoundConstruction (r + 1)))"
  unfolding buildRound_def pairRemaining_def Let_def
  by (simp only: assms if_True option.case prod.case)

lemma buildRound_Inr:
  assumes "buildRound D M others pairs r g = Inr (rnd, g')"
  obtains o1 o2 arr pp where
    "r < length pairs" and "pairs ! r = Some (o1, o2)"
    and "mset arr = mset (filter (\<lambda>i. i \<notin> {D, M, o1, o2}) others)"
    and "mset pp = mset (pairUp arr)" and "4 \<le> length pp"
    and "rnd = \<lparr>round_no = r + 1, matches = roundMatches D M o1 o2 pp\<rparr>"
    and "roundOk (roundMatches D M o1 o2 pp)"
proof -
  from assms have r: "r < length pairs"
    by (auto simp: buildRound_def split: if_splits)
  from assms r obtain o1 o2 where p: "pairs ! r = Some (o1, o2)"
    by (cases "pairs ! r") (auto simp: buildRound_def)
  let ?rem = "filter (\<lambda>i. i \<notin> {D, M, o1, o2}) others"
  obtain arr g0 where sh1: "shuffle ?rem g = (arr, g0)" by (cases "shuffle ?rem g")
  obtain pp g2 where sh2: "shuffle (pairUp arr) g0 = (pp, g2)" by (cases "shuffle (pairUp arr) g0")
  have 1: "mset arr = mset ?rem" using mset_shuffle [of ?rem g] sh1 by simp
  have 2: "mset pp = mset (pairUp arr)" using mset_shuffle [of "pairUp arr" g0] sh2 by simp
  from assms
  have "4 \<le> length pp \<and> rnd = \<lparr>round_no = r + 1, matches = roundMatches D M o1 o2 pp\<rparr> \<and>
      roundOk (roundMatches D M o1 o2 pp)"
    unfolding buildRound_unfold [OF r p sh1 sh2] by (auto split: if_splits)
  with r p 1 2 that show thesis by blast
qed

lemma buildRound_success:
  assumes "r < length pairs" and "pairs ! r = Some (o1, o2)"
    and "\<And>arr pp. mset arr = mset (filter (\<lambda>i. i \<notin> {D, M, o1, o2}) others) \<Longrightarrow>
           mset pp = mset (pairUp arr) \<Longrightarrow> 4 \<le> length pp \<and> roundOk (roundMatches D M o1 o2 pp)"
  shows "\<exists>rnd g'. buildRound D M others pairs r g = Inr (rnd, g')"
proof -
  let ?rem = "filter (\<lambda>i. i \<notin> {D, M, o1, o2}) others"
  obtain arr g0 where sh1: "shuffle ?rem g = (arr, g0)" by (cases "shuffle ?rem g")
  obtain pp g2 where sh2: "shuffle (pairUp arr) g0 = (pp, g2)" by (cases "shuffle (pairUp arr) g0")
  have 1: "mset arr = mset ?rem" using mset_shuffle [of ?rem g] sh1 by simp
  have 2: "mset pp = mset (pairUp arr)" using mset_shuffle [of "pairUp arr" g0] sh2 by simp
  have "4 \<le> length pp \<and> roundOk (roundMatches D M o1 o2 pp)"
    using assms(3) [OF 1 2] .
  then show ?thesis
    unfolding buildRound_unfold [OF assms(1,2) sh1 sh2] by simp
qed

lemma roundsLoop_Inr:
  "roundsLoop D M others pairs r g acc = Inr rounds \<Longrightarrow> r \<le> 15 \<Longrightarrow>
     length rounds = length acc + (15 - r) \<and> take (length acc) rounds = acc \<and>
     (\<forall>n < 15 - r. \<exists>g1 g2. buildRound D M others pairs (r + n) g1 = Inr (rounds ! (length acc + n), g2))"
proof (induction D M others pairs r g acc rule: roundsLoop.induct)
  case (1 D M others pairs r g acc)
  show ?case
  proof (cases "r < 15")
    case False
    then show ?thesis using "1.prems" by (simp add: roundsLoop.simps)
  next
    case True
    from True "1.prems"(1) obtain rnd g' where
      b: "buildRound D M others pairs r g = Inr (rnd, g')"
      by (subst (asm) roundsLoop.simps) (auto split: sum.splits)
    then have rl: "roundsLoop D M others pairs (r + 1) g' (acc @ [rnd]) = Inr rounds"
      using True "1.prems"(1) by (subst (asm) roundsLoop.simps) simp
    have ih: "length rounds = length (acc @ [rnd]) + (15 - (r + 1)) \<and>
        take (length (acc @ [rnd])) rounds = acc @ [rnd] \<and>
        (\<forall>n < 15 - (r + 1). \<exists>g1 g2.
           buildRound D M others pairs (r + 1 + n) g1 = Inr (rounds ! (length (acc @ [rnd]) + n), g2))"
      using "1.IH" [OF True b refl rl] True by simp
    then have len: "length rounds = length acc + (15 - r)" using True by simp
    have tk: "take (Suc (length acc)) rounds = acc @ [rnd]" using ih by simp
    then have "take (length acc) (take (Suc (length acc)) rounds) = take (length acc) (acc @ [rnd])"
      by simp
    then have tk': "take (length acc) rounds = acc" by (simp add: min_def)
    have "take (Suc (length acc)) rounds ! length acc = (acc @ [rnd]) ! length acc"
      by (simp only: tk)
    then have at: "rounds ! length acc = rnd" by simp
    have "\<exists>g1 g2. buildRound D M others pairs (r + n) g1 = Inr (rounds ! (length acc + n), g2)"
      if "n < 15 - r" for n
    proof (cases n)
      case 0
      then show ?thesis using b at by auto
    next
      case (Suc m)
      then have "m < 15 - (r + 1)" using that by simp
      with ih obtain g1 g2 where
        "buildRound D M others pairs (r + 1 + m) g1 = Inr (rounds ! (length (acc @ [rnd]) + m), g2)"
        by blast
      then show ?thesis using Suc by auto
    qed
    with len tk' show ?thesis by blast
  qed
qed

lemma roundsLoop_success:
  "(\<And>n g. r \<le> n \<Longrightarrow> n < 15 \<Longrightarrow> \<exists>rnd g'. buildRound D M others pairs n g = Inr (rnd, g')) \<Longrightarrow>
     \<exists>rounds. roundsLoop D M others pairs r g acc = Inr rounds"
proof (induction D M others pairs r g acc rule: roundsLoop.induct)
  case (1 D M others pairs r g acc)
  show ?case
  proof (cases "r < 15")
    case False
    then show ?thesis by (simp add: roundsLoop.simps)
  next
    case True
    then obtain rnd g' where b: "buildRound D M others pairs r g = Inr (rnd, g')"
      using "1.prems" [of r g] by auto
    have "\<exists>rounds. roundsLoop D M others pairs (r + 1) g' (acc @ [rnd]) = Inr rounds"
      using "1.IH" [OF True b refl] "1.prems" by simp
    then show ?thesis using True b by (subst roundsLoop.simps) simp
  qed
qed

lemma length_filter_two:
  assumes "x \<in> set xs" "y \<in> set xs" "x \<noteq> y" "\<not> P x" "\<not> P y"
  shows "length (filter P xs) + 2 \<le> length xs"
proof -
  have "{x, y} \<subseteq> set (filter (\<lambda>z. \<not> P z) xs)" using assms by simp
  then have "card {x, y} \<le> card (set (filter (\<lambda>z. \<not> P z) xs))"
    by (intro card_mono) simp_all
  also have "\<dots> \<le> length (filter (\<lambda>z. \<not> P z) xs)" by (rule card_length)
  finally have "2 \<le> length (filter (\<lambda>z. \<not> P z) xs)" using assms(3) by simp
  then show ?thesis using sum_length_filter_compl [of P xs] by simp
qed

lemma count_image_Some: "count (image_mset Some A) (Some x) = count A x"
  by (induction A) simp_all

text \<open>What a round that passed its check looks like.\<close>

lemma round_shape:
  assumes b: "buildRound D M others pairs n g1 = Inr (rnd, g2)"
    and len: "length others = 10"
    and mem: "\<And>x y. pairs ! n = Some (x, y) \<Longrightarrow> x \<in> set others \<and> y \<in> set others"
  obtains o1 o2 pp where
    "pairs ! n = Some (o1, o2)"
    and "rnd = \<lparr>round_no = n + 1, matches = roundMatches D M o1 o2 pp\<rparr>"
    and "length pp = 4" and "D \<noteq> M" and "o1 \<noteq> o2"
    and "distinct ([Some D, Some M, Some o1, Some o2] @ flat pp)"
    and "mset (flat pp) = image_mset Some (mset (filter (\<lambda>i. i \<notin> {D, M, o1, o2}) others)) +
           (if odd (length (filter (\<lambda>i. i \<notin> {D, M, o1, o2}) others)) then {#None#} else {#})"
proof -
  from b obtain o1 o2 arr pp where
    p: "pairs ! n = Some (o1, o2)"
    and arr: "mset arr = mset (filter (\<lambda>i. i \<notin> {D, M, o1, o2}) others)"
    and pp: "mset pp = mset (pairUp arr)" and l4: "4 \<le> length pp"
    and rnd: "rnd = \<lparr>round_no = n + 1, matches = roundMatches D M o1 o2 pp\<rparr>"
    and ok: "roundOk (roundMatches D M o1 o2 pp)"
    by (rule buildRound_Inr)
  let ?rem = "filter (\<lambda>i. i \<notin> {D, M, o1, o2}) others"
  have d4: "distinct ([Some D, Some M, Some o1, Some o2] @ flat (take 4 pp))"
    using ok unfolding roundOk_iff slots_roundMatches_ge [OF l4] by simp
  then have ne: "D \<noteq> M" "o1 \<noteq> o2" by auto
  have "length ?rem + 2 \<le> length others"
    using mem [OF p] ne by (intro length_filter_two [of o1 _ o2]) simp_all
  then have "length ?rem \<le> 8" using len by simp
  moreover have "length arr = length ?rem" using arr by (metis size_mset)
  moreover have "length pp = length (pairUp arr)" using pp by (metis size_mset)
  ultimately have "length pp \<le> 4" by (simp add: length_pairUp)
  with l4 have l: "length pp = 4" by simp
  have "mset (flat pp) = mset (flat (pairUp arr))" using pp by (rule mset_flat_cong)
  also have "\<dots> = mset (map Some arr) + (if odd (length arr) then {#None#} else {#})"
    by (rule mset_flat_pairUp)
  also have "mset (map Some arr) = image_mset Some (mset ?rem)"
    using arr by simp
  finally have m: "mset (flat pp) = image_mset Some (mset ?rem) +
      (if odd (length ?rem) then {#None#} else {#})"
    using \<open>length arr = length ?rem\<close> by simp
  from p rnd l ne d4 m that show thesis by (simp add: l)
qed

lemma round_count_le_1:
  assumes b: "buildRound D M others pairs n g1 = Inr (rnd, g2)"
    and len: "length others = 10"
    and mem: "\<And>x y. pairs ! n = Some (x, y) \<Longrightarrow> x \<in> set others \<and> y \<in> set others"
    and p: "pairs ! n = Some (o1, o2)" and x: "x \<notin> {D, M, o1, o2}"
  shows "count (mset others) x \<le> 1"
proof -
  from b len mem obtain o1' o2' pp where
    p': "pairs ! n = Some (o1', o2')"
    and d: "distinct ([Some D, Some M, Some o1', Some o2'] @ flat pp)"
    and m: "mset (flat pp) = image_mset Some (mset (filter (\<lambda>i. i \<notin> {D, M, o1', o2'}) others)) +
           (if odd (length (filter (\<lambda>i. i \<notin> {D, M, o1', o2'}) others)) then {#None#} else {#})"
    by (rule round_shape)
  have eq: "o1' = o1" "o2' = o2" using p p' by simp_all
  have "distinct (flat pp)" using d by simp
  then have "count (mset (flat pp)) (Some x) \<le> 1"
    by (simp add: distinct_count_atmost_1)
  moreover have "count (mset (flat pp)) (Some x) = count (mset others) x"
    unfolding m eq using x by (simp add: count_image_Some)
  ultimately show ?thesis by simp
qed

lemma picks_free_round:
  assumes "length pairs = 15" and "picks x pairs \<le> 3"
  shows "\<exists>n < 15. \<forall>a b. pairs ! n = Some (a, b) \<longrightarrow> x \<noteq> a \<and> x \<noteq> b"
proof (rule ccontr)
  assume "\<not> ?thesis"
  then have "\<forall>n < length pairs. case pairs ! n of None \<Rightarrow> False | Some (a, b) \<Rightarrow> a = x \<or> b = x"
    using assms(1) by (auto split: option.splits)
  then have "filter (\<lambda>e. case e of None \<Rightarrow> False | Some (a, b) \<Rightarrow> a = x \<or> b = x) pairs = pairs"
    by (intro filter_True) (auto simp: in_set_conv_nth)
  then have "picks x pairs = 15" using assms(1) by (simp add: picks_def)
  with assms(2) show False by simp
qed

lemma generateSchedule_Inr:
  assumes "generateSchedule cmp players seed = Inr rounds"
  obtains D M pairs where
    "length players = 12" and "dmIds players = [D, M]"
    and "length (othersOf players D M) = 10"
    and "buildBalancedDmOpponents cmp (othersOf players D M) = Inr pairs"
    and "roundsLoop D M (othersOf players D M) pairs 0 seed [] = Inr rounds"
proof -
  from assms have 1: "length players = 12" and 2: "length (dmIds players) = 2"
    by (auto simp: generateSchedule_def split: if_splits)
  define D M where "D = dmIds players ! 0" and "M = dmIds players ! 1"
  have dm: "dmIds players = [D, M]"
    using 2 unfolding D_def M_def by (auto simp: length_Suc_conv numeral_2_eq_2)
  from assms 1 2 have 3: "length (othersOf players D M) = 10"
    by (auto simp: generateSchedule_def Let_def D_def M_def split: if_splits)
  from assms 1 2 3 obtain pairs where
    4: "buildBalancedDmOpponents cmp (othersOf players D M) = Inr pairs"
    by (cases "buildBalancedDmOpponents cmp (othersOf players D M)")
      (auto simp: generateSchedule_def Let_def D_def M_def)
  from assms 1 2 3 4 have "roundsLoop D M (othersOf players D M) pairs 0 seed [] = Inr rounds"
    by (auto simp: generateSchedule_def Let_def D_def M_def)
  with 1 dm 3 4 that show thesis by blast
qed

lemma others_notin: "D \<notin> set (othersOf players D M)" "M \<notin> set (othersOf players D M)"
  by (auto simp: othersOf_def)

lemma ids_partition:
  assumes "length players = 12" and "dmIds players = [D, M]"
    and "length (othersOf players D M) = 10"
  shows "mset (map player_id players) = {#D, M#} + mset (othersOf players D M)"
proof -
  let ?Q = "\<lambda>p. player_id p \<noteq> D \<and> player_id p \<noteq> M"
  let ?duo = "\<lambda>p. isDuoName (player_name p)"
  let ?S = "filter (\<lambda>p. \<not> ?Q p) players"
  have lS: "length ?S = 2"
    using sum_length_filter_compl [of ?Q players] assms(1,3) by (simp add: othersOf_def)
  have F: "map player_id (filter ?duo players) = [D, M]"
    using assms(2) by (simp add: dmIds_def)
  have "\<not> ?Q p" if "p \<in> set (filter ?duo players)" for p
  proof -
    have "player_id p \<in> set (map player_id (filter ?duo players))" using that by force
    then show ?thesis unfolding F by auto
  qed
  then have "filter (\<lambda>p. \<not> ?Q p \<and> ?duo p) players = filter ?duo players"
    by (intro filter_cong refl) auto
  then have eq: "filter ?duo ?S = filter ?duo players"
    by (simp only: filter_filter)
  have "length (map player_id (filter ?duo players)) = 2"
    unfolding F by simp
  then have "length (filter ?duo ?S) = 2"
    unfolding eq by simp
  then have "length (filter (\<lambda>p. \<not> ?duo p) ?S) = 0"
    using sum_length_filter_compl [of ?duo ?S] lS by simp
  then have "\<forall>p \<in> set ?S. ?duo p"
    by (auto simp: filter_empty_conv)
  then have "filter ?duo ?S = ?S" by (intro filter_True) 
  then have S: "map player_id ?S = [D, M]"
    using F eq by simp
  have "mset (map player_id xs) =
      mset (map player_id (filter ?Q xs)) + mset (map player_id (filter (\<lambda>p. \<not> ?Q p) xs))" for xs
    by (induction xs) simp_all
  from this [of players] show ?thesis unfolding S by (simp add: othersOf_def)
qed

text \<open>Everything a successful run of the generator determines.\<close>

lemma generateSchedule_facts:
  assumes gen: "generateSchedule cmp players seed = Inr rounds"
  obtains D M pairs where
    "length players = 12" and "dmIds players = [D, M]"
    and "length (othersOf players D M) = 10"
    and "buildBalancedDmOpponents cmp (othersOf players D M) = Inr pairs"
    and "length rounds = 15" and "D \<noteq> M" and "distinct (othersOf players D M)"
    and "\<forall>n<15. \<exists>o1 o2 pp. pairs ! n = Some (o1, o2) \<and> o1 \<noteq> o2 \<and>
            o1 \<in> set (othersOf players D M) \<and> o2 \<in> set (othersOf players D M) \<and>
            rounds ! n = \<lparr>round_no = n + 1, matches = roundMatches D M o1 o2 pp\<rparr> \<and>
            length pp = 4 \<and>
            mset (concat (map matchIds (roundMatches D M o1 o2 pp))) =
              image_mset Some (mset (map player_id players))"
proof -
  from gen obtain D M pairs where
    l12: "length players = 12" and dm: "dmIds players = [D, M]"
    and l10: "length (othersOf players D M) = 10"
    and bal: "buildBalancedDmOpponents cmp (othersOf players D M) = Inr pairs"
    and rl: "roundsLoop D M (othersOf players D M) pairs 0 seed [] = Inr rounds"
    by (rule generateSchedule_Inr)
  let ?others = "othersOf players D M"
  note br = buildBalanced_result [OF bal]
  have l15: "length rounds = 15"
    and built: "\<And>n. n < 15 \<Longrightarrow> \<exists>g1 g2. buildRound D M ?others pairs n g1 = Inr (rounds ! n, g2)"
    using roundsLoop_Inr [OF rl] by simp_all
  have mem: "x \<in> set ?others \<and> y \<in> set ?others" if "n < 15" "pairs ! n = Some (x, y)" for n x y
    using br(2) [OF that(1)] that(2) by auto
  have dist: "distinct ?others"
    unfolding distinct_count_atmost_1
  proof (intro allI)
    fix x
    show "count (mset ?others) x = (if x \<in> set ?others then 1 else 0)"
    proof (cases "x \<in> set ?others")
      case False
      then show ?thesis by (simp add: count_eq_zero_iff)
    next
      case True
      obtain n where n: "n < 15" and free: "\<forall>a b. pairs ! n = Some (a, b) \<longrightarrow> x \<noteq> a \<and> x \<noteq> b"
        using picks_free_round [OF br(1) br(3) [of x]] by blast
      obtain o1 o2 where p: "pairs ! n = Some (o1, o2)" using br(2) [OF n] by blast
      obtain g1 g2 where b: "buildRound D M ?others pairs n g1 = Inr (rounds ! n, g2)"
        using built [OF n] by blast
      have "x \<notin> {D, M, o1, o2}"
        using True others_notin [where D = D and M = M and players = players] free p by auto
      then have "count (mset ?others) x \<le> 1"
        using round_count_le_1 [OF b l10 mem [OF n] p] by blast
      moreover have "1 \<le> count (mset ?others) x" using True by (simp add: Suc_le_eq)
      ultimately have "count (mset ?others) x = 1" by (rule order_antisym)
      then show ?thesis using True by (simp only: if_True)
    qed
  qed
  have part: "mset (map player_id players) = {#D, M#} + mset ?others"
    using l12 dm l10 by (rule ids_partition)
  have rounds: "\<exists>o1 o2 pp. pairs ! n = Some (o1, o2) \<and> o1 \<noteq> o2 \<and>
            o1 \<in> set ?others \<and> o2 \<in> set ?others \<and>
            rounds ! n = \<lparr>round_no = n + 1, matches = roundMatches D M o1 o2 pp\<rparr> \<and>
            length pp = 4 \<and>
            mset (concat (map matchIds (roundMatches D M o1 o2 pp))) =
              image_mset Some (mset (map player_id players))" (is "\<exists>o1 o2 pp. ?R o1 o2 pp")
    and ne: "n < 15 \<Longrightarrow> D \<noteq> M" if n: "n < 15" for n
  proof -
    obtain g1 g2 where b: "buildRound D M ?others pairs n g1 = Inr (rounds ! n, g2)"
      using built [OF n] by blast
    from b l10 mem [OF n] obtain o1 o2 pp where
      p: "pairs ! n = Some (o1, o2)"
      and rnd: "rounds ! n = \<lparr>round_no = n + 1, matches = roundMatches D M o1 o2 pp\<rparr>"
      and l4: "length pp = 4" and ne: "D \<noteq> M" "o1 \<noteq> o2"
      and m: "mset (flat pp) = image_mset Some (mset (filter (\<lambda>i. i \<notin> {D, M, o1, o2}) ?others)) +
           (if odd (length (filter (\<lambda>i. i \<notin> {D, M, o1, o2}) ?others)) then {#None#} else {#})"
      by (rule round_shape)
    let ?rem = "filter (\<lambda>i. i \<notin> {D, M, o1, o2}) ?others"
    have o: "o1 \<in> set ?others" "o2 \<in> set ?others" using mem [OF n p] by simp_all
    have rem: "mset ?rem + {#o1, o2#} = mset ?others"
    proof (rule multiset_eqI)
      fix x
      show "count (mset ?rem + {#o1, o2#}) x = count (mset ?others) x"
        using dist o ne others_notin [where D = D and M = M and players = players]
        by (auto simp: distinct_count_atmost_1)
    qed
    then have "size (mset ?rem + {#o1, o2#}) = size (mset ?others)" by (simp only:)
    then have "length ?rem = 8" using l10 by (simp del: mset_filter)
    then have m': "mset (flat pp) = image_mset Some (mset ?rem)" using m by simp
    have "mset (concat (map matchIds (roundMatches D M o1 o2 pp))) =
        {#Some D, Some M, Some o1, Some o2#} + image_mset Some (mset ?rem)"
      by (simp add: slots_roundMatches [OF l4] m')
    also have "\<dots> = image_mset Some ({#D, M#} + (mset ?rem + {#o1, o2#}))"
      by simp
    also have "\<dots> = image_mset Some (mset (map player_id players))"
      unfolding rem part ..
    finally have "?R o1 o2 pp" using p ne(2) o rnd l4 by (intro conjI)
    then show "\<exists>o1 o2 pp. ?R o1 o2 pp" by (intro exI)
    show "D \<noteq> M" by (rule ne)
  qed
  have dm_ne: "D \<noteq> M" using ne [of 0] by simp
  have all: "\<forall>n<15. \<exists>o1 o2 pp. pairs ! n = Some (o1, o2) \<and> o1 \<noteq> o2 \<and>
            o1 \<in> set ?others \<and> o2 \<in> set ?others \<and>
            rounds ! n = \<lparr>round_no = n + 1, matches = roundMatches D M o1 o2 pp\<rparr> \<and>
            length pp = 4 \<and>
            mset (concat (map matchIds (roundMatches D M o1 o2 pp))) =
              image_mset Some (mset (map player_id players))"
    by (intro allI impI) (rule rounds)
  show thesis
    by (rule that [OF l12 dm l10 bal l15 dm_ne dist all])
qed

lemma rem_partition:
  assumes "distinct others" and "D \<notin> set others" and "M \<notin> set others"
    and "o1 \<in> set others" and "o2 \<in> set others" and "o1 \<noteq> o2"
  shows "mset (filter (\<lambda>i. i \<notin> {D, M, o1, o2}) others) + {#o1, o2#} = mset others"
proof (rule multiset_eqI)
  fix x
  show "count (mset (filter (\<lambda>i. i \<notin> {D, M, o1, o2}) others) + {#o1, o2#}) x = count (mset others) x"
    using assms by (auto simp: distinct_count_atmost_1)
qed

lemma round_ok_distinct:
  assumes d: "distinct others" and l10: "length others = 10" and ne: "D \<noteq> M"
    and nin: "D \<notin> set others" "M \<notin> set others"
    and o: "o1 \<in> set others" "o2 \<in> set others" "o1 \<noteq> o2"
    and arr: "mset arr = mset (filter (\<lambda>i. i \<notin> {D, M, o1, o2}) others)"
    and pp: "mset pp = mset (pairUp arr)"
  shows "4 \<le> length pp \<and> roundOk (roundMatches D M o1 o2 pp)"
proof -
  let ?rem = "filter (\<lambda>i. i \<notin> {D, M, o1, o2}) others"
  have rem: "mset ?rem + {#o1, o2#} = mset others"
    using d nin o by (rule rem_partition)
  then have "size (mset ?rem + {#o1, o2#}) = size (mset others)" by (simp only:)
  then have l8: "length ?rem = 8" using l10 by (simp del: mset_filter)
  have la: "length arr = 8" using arr l8 by (metis size_mset)
  have "length pp = length (pairUp arr)" using pp by (metis size_mset)
  then have l4: "length pp = 4" by (simp add: length_pairUp la)
  have "mset (flat pp) = mset (flat (pairUp arr))" using pp by (rule mset_flat_cong)
  also have "\<dots> = mset (map Some arr)" using la by (simp add: mset_flat_pairUp)
  also have "\<dots> = image_mset Some (mset ?rem)" using arr by simp
  finally have m: "mset (flat pp) = image_mset Some (mset ?rem)" .
  let ?slots = "concat (map matchIds (roundMatches D M o1 o2 pp))"
  have "mset ?slots = {#Some D, Some M, Some o1, Some o2#} + image_mset Some (mset ?rem)"
    by (simp add: slots_roundMatches [OF l4] m)
  also have "\<dots> = image_mset Some ({#D, M#} + (mset ?rem + {#o1, o2#}))" by simp
  also have "\<dots> = mset (map Some (D # M # others))" unfolding rem by simp
  finally have ms: "mset ?slots = mset (map Some (D # M # others))" .
  have "distinct (map Some (D # M # others))"
    using d ne nin by (auto simp: distinct_map)
  then have "distinct ?slots" using ms by (metis mset_eq_imp_distinct_iff)
  moreover have "length ?slots = length (map Some (D # M # others))"
    using ms by (metis size_mset)
  then have "length ?slots = 12" using l10 by simp
  ultimately show ?thesis using l4 by (simp only: roundOk_iff) simp
qed

lemma duo_rows:
  assumes "dmIds players = [D, M]"
  shows "filter (\<lambda>p. isDuoName (player_name p))
           (filter (\<lambda>p. \<not> (player_id p \<noteq> D \<and> player_id p \<noteq> M)) players) =
         filter (\<lambda>p. isDuoName (player_name p)) players"
proof -
  let ?Q = "\<lambda>p. player_id p \<noteq> D \<and> player_id p \<noteq> M"
  let ?duo = "\<lambda>p. isDuoName (player_name p)"
  have F: "map player_id (filter ?duo players) = [D, M]"
    using assms by (simp add: dmIds_def)
  have "\<not> ?Q p" if "p \<in> set (filter ?duo players)" for p
  proof -
    have "player_id p \<in> set (map player_id (filter ?duo players))" using that by force
    then show ?thesis unfolding F by auto
  qed
  then have "filter (\<lambda>p. \<not> ?Q p \<and> ?duo p) players = filter ?duo players"
    by (intro filter_cong refl) auto
  then show ?thesis by (simp only: filter_filter)
qed

lemma distinct_ids_facts:
  assumes d: "distinct (map player_id players)" and l12: "length players = 12"
    and dm: "dmIds players = [D, M]"
  shows "D \<noteq> M" and "distinct (othersOf players D M)" and "length (othersOf players D M) = 10"
proof -
  let ?Q = "\<lambda>p. player_id p \<noteq> D \<and> player_id p \<noteq> M"
  let ?duo = "\<lambda>p. isDuoName (player_name p)"
  let ?S = "filter (\<lambda>p. \<not> ?Q p) players"
  have "distinct (map player_id (filter ?duo players))"
    using d by (rule distinct_map_filter)
  then show "D \<noteq> M" using dm by (simp add: dmIds_def)
  show "distinct (othersOf players D M)"
    unfolding othersOf_def using d by (rule distinct_map_filter)
  have dS: "distinct (map player_id ?S)" using d by (rule distinct_map_filter)
  have "set (map player_id ?S) \<subseteq> {D, M}" by auto
  then have "card (set (map player_id ?S)) \<le> card {D, M}" by (intro card_mono) simp_all
  also have "\<dots> \<le> 2" by (simp add: card_insert_if)
  finally have le: "length ?S \<le> 2"
    using distinct_card [OF dS] by simp
  have "length (map player_id (filter ?duo players)) = 2"
    using dm by (simp add: dmIds_def)
  then have "length (filter ?duo ?S) = 2"
    unfolding duo_rows [OF dm] by simp
  then have "2 \<le> length ?S"
    using length_filter_le [of ?duo ?S] by simp
  with le have "length ?S = 2" by simp
  then show "length (othersOf players D M) = 10"
    using sum_length_filter_compl [of ?Q players] l12 by (simp add: othersOf_def)
qed

lemma generateSchedule_succeeds:
  assumes d: "distinct (map player_id players)" and l12: "length players = 12"
    and dm: "dmIds players = [D, M]"
    and bal: "buildBalancedDmOpponents cmp (othersOf players D M) = Inr pairs"
  shows "\<exists>rounds. generateSchedule cmp players seed = Inr rounds"
proof -
  let ?others = "othersOf players D M"
  note f = distinct_ids_facts [OF d l12 dm]
  note br = buildBalanced_result [OF bal]
  have "\<exists>rnd g'. buildRound D M ?others pairs n g = Inr (rnd, g')" if n: "n < 15" for n g
  proof -
    obtain o1 o2 where p: "pairs ! n = Some (o1, o2)" and o: "o1 \<in> set ?others" "o2 \<in> set ?others"
      and ne: "o1 \<noteq> o2"
      using br(2) [OF n] f(2) by blast
    show ?thesis
    proof (rule buildRound_success [OF _ p])
      show "n < length pairs" using n br(1) by simp
      show "4 \<le> length pp \<and> roundOk (roundMatches D M o1 o2 pp)"
        if "mset arr = mset (filter (\<lambda>i. i \<notin> {D, M, o1, o2}) ?others)"
          and "mset pp = mset (pairUp arr)" for arr pp
        using f(2,3,1) others_notin [where D = D and M = M and players = players] o ne that
        by (rule round_ok_distinct)
    qed
  qed
  then obtain rounds where "roundsLoop D M ?others pairs 0 seed [] = Inr rounds"
    using roundsLoop_success [of 0 D M ?others pairs seed "[]"] by blast
  then have "generateSchedule cmp players seed = Inr rounds"
    using l12 dm f(3) bal by (simp add: generateSchedule_def Let_def)
  then show ?thesis ..
qed

lemma generateSchedule_Inl:
  "generateSchedule cmp players seed = Inl e \<Longrightarrow> length players = 12 \<Longrightarrow>
     dmIds players = [D, M] \<Longrightarrow> length (othersOf players D M) = 10 \<Longrightarrow>
     fst (backtrack cmp (othersOf players D M) 0 initState) \<Longrightarrow>
     \<exists>pairs. buildBalancedDmOpponents cmp (othersOf players D M) = Inr pairs"
  by (auto simp: buildBalancedDmOpponents_def split: prod.splits bool.splits)

lemma generateSchedule_rounds:
  assumes "generateSchedule cmp players seed = Inr rounds"
  shows "length rounds = 15"
    and "n < 15 \<Longrightarrow> \<exists>o1 o2 pp. rounds ! n =
      \<lparr>round_no = n + 1,
       matches = roundMatches (dmIds players ! 0) (dmIds players ! 1) o1 o2 pp\<rparr>"
proof -
  from assms obtain D M pairs where
    l12: "length players = 12" and dm: "dmIds players = [D, M]"
    and l10: "length (othersOf players D M) = 10"
    and bal: "buildBalancedDmOpponents cmp (othersOf players D M) = Inr pairs"
    and l15: "length rounds = 15" and ne: "D \<noteq> M" and dist: "distinct (othersOf players D M)"
    and rnd0: "\<forall>n<15. \<exists>o1 o2 pp. pairs ! n = Some (o1, o2) \<and> o1 \<noteq> o2 \<and>
            o1 \<in> set (othersOf players D M) \<and> o2 \<in> set (othersOf players D M) \<and>
            rounds ! n = \<lparr>round_no = n + 1, matches = roundMatches D M o1 o2 pp\<rparr> \<and>
            length pp = 4 \<and>
            mset (concat (map matchIds (roundMatches D M o1 o2 pp))) =
              image_mset Some (mset (map player_id players))"
    by (rule generateSchedule_facts)
  show "length rounds = 15" by (rule l15)
  show "\<exists>o1 o2 pp. rounds ! n =
      \<lparr>round_no = n + 1,
       matches = roundMatches (dmIds players ! 0) (dmIds players ! 1) o1 o2 pp\<rparr>" if "n < 15"
    using rnd0 [rule_format, OF that] unfolding dm by auto
qed

lemma generateSchedule_unscored:
  assumes "generateSchedule cmp players seed = Inr rounds" and "r \<in> set rounds"
    and "mt \<in> set (matches r)"
  shows "score mt = None"
proof -
  note f = generateSchedule_rounds [OF assms(1)]
  obtain n where n: "n < 15" and r: "r = rounds ! n"
    using assms(2) f(1) by (auto simp: in_set_conv_nth)
  from f(2) [OF n] obtain D M o1 o2 pp where "matches r = roundMatches D M o1 o2 pp"
    unfolding r by auto
  then show ?thesis using assms(3) by (auto simp: roundMatches_def)
qed

lemma court7_roundMatches:
  "court7 \<lparr>round_no = n, matches = roundMatches D M o1 o2 pp\<rparr> =
     [\<lparr>court = 7, team1 = \<lparr>team_a = Some D, team_b = Some M\<rparr>,
        team2 = \<lparr>team_a = Some o1, team_b = Some o2\<rparr>, score = None\<rparr>]"
  by (simp add: court7_def roundMatches_def)

lemma length_filter_nth_cong:
  "length xs = length ys \<Longrightarrow> (\<And>n. n < length xs \<Longrightarrow> P (xs ! n) \<longleftrightarrow> Q (ys ! n)) \<Longrightarrow>
     length (filter P xs) = length (filter Q ys)"
proof (induction xs ys rule: list_induct2)
  case Nil
  show ?case by simp
next
  case (Cons x xs y ys)
  have "P x \<longleftrightarrow> Q y" using Cons.prems [of 0] by simp
  moreover have "length (filter P xs) = length (filter Q ys)"
    using Cons.prems [of "Suc n" for n] by (intro Cons.IH) simp
  ultimately show ?case by simp
qed

lemma occ_eq_picks:
  "(\<And>x y. Some (x, y) \<in> set xs \<Longrightarrow> x \<noteq> y) \<Longrightarrow> occ p xs = picks p xs"
proof (induction xs)
  case Nil
  show ?case by (simp add: occ_def picks_def)
next
  case (Cons e xs)
  have ih: "occ p xs = picks p xs" using Cons.prems by (intro Cons.IH) simp
  show ?case
  proof (cases e)
    case None
    then show ?thesis using ih by (simp add: occ_def picks_def)
  next
    case (Some xy)
    obtain x y where xy: "xy = (x, y)" by (cases xy)
    have "x \<noteq> y" using Cons.prems [of x y] Some xy by simp
    then show ?thesis using ih Some xy by (auto simp: occ_Cons picks_Cons)
  qed
qed

section \<open>The search and the name rule on the example players\<close>

text \<open>The equations of the search without \<open>let\<close>, for evaluation.\<close>

lemmas loop_j_eval = loop_j.simps [unfolded Let_def]

lemmas choosePair_eval = choosePair_def [unfolded Let_def]

lemmas undoPair_eval = undoPair_def [unfolded Let_def]

lemmas feasible_eval = feasible_def [unfolded Let_def]

lemma replicate_15: "replicate 15 x = [x, x, x, x, x, x, x, x, x, x, x, x, x, x, x]"
  by (simp add: numeral_eq_Suc)

lemma balanced_p3_to_p12: "buildBalancedDmOpponents codeUnitCompare
    [''p3'', ''p4'', ''p5'', ''p6'', ''p7'', ''p8'', ''p9'', ''p10'', ''p11'', ''p12''] = Inr [Some (''p10'', ''p11''), Some (''p12'', ''p3''),
      Some (''p4'', ''p5''), Some (''p6'', ''p7''), Some (''p8'', ''p9''),
      Some (''p10'', ''p12''), Some (''p11'', ''p3''),
      Some (''p4'', ''p6''), Some (''p5'', ''p7''), Some (''p8'', ''p10''),
      Some (''p9'', ''p11''), Some (''p12'', ''p4''), Some (''p3'', ''p5''),
      Some (''p6'', ''p8''), Some (''p7'', ''p9'')]"
  by (simp add: buildBalancedDmOpponents_def initState_def backtrack.simps loop_i.simps loop_j_eval
      choosePair_eval undoPair_eval feasible_eval needTotal_def sort_by_def poolCompare_def
      codeUnitCompare_def pairKey_def setAt_def NEED_def replicate_15
      cong: prod.case_cong_weak bool.case_cong_weak)


lemma players0_facts:
  "distinct (map player_id players0)" "length players0 = 12"
  "dmIds players0 = [''p1'', ''p2'']" "othersOf players0 ''p1'' ''p2'' = others0"
  by (simp_all add: players0_def othersOf_def others0_def) code_simp

lemma playersTwoDaniels_facts:
  "distinct (map player_id playersTwoDaniels)" "length playersTwoDaniels = 12"
  "dmIds playersTwoDaniels = [''p1'', ''p2'']" "othersOf playersTwoDaniels ''p1'' ''p2'' = others0"
  "map player_name (filter (\<lambda>p. isDuoName (player_name p)) playersTwoDaniels) = [''Daniel'', ''Daniel'']"
  by (simp_all add: playersTwoDaniels_def players0_def othersOf_def others0_def) code_simp+

lemma balanced_others0: "buildBalancedDmOpponents codeUnitCompare others0 = Inr pairs0"
  unfolding others0_def pairs0_def by (rule balanced_p3_to_p12)

lemma generateSchedule_players0:
  "\<exists>rounds. generateSchedule codeUnitCompare players0 42 = Inr rounds"
proof (rule generateSchedule_succeeds [OF players0_facts(1,2,3)])
  show "buildBalancedDmOpponents codeUnitCompare (othersOf players0 ''p1'' ''p2'') = Inr pairs0"
    unfolding players0_facts(4) by (rule balanced_others0)
qed

lemma generateSchedule_playersTwoDaniels:
  "\<exists>rounds. generateSchedule codeUnitCompare playersTwoDaniels 42 = Inr rounds"
proof (rule generateSchedule_succeeds [OF playersTwoDaniels_facts(1,2,3)])
  show "buildBalancedDmOpponents codeUnitCompare (othersOf playersTwoDaniels ''p1'' ''p2'') = Inr pairs0"
    unfolding playersTwoDaniels_facts(4) by (rule balanced_others0)
qed

section \<open>Properties of the generated schedule\<close>

text \<open>
  C1.  On every input of players and seed on which \<open>generateSchedule\<close> succeeds, the
  schedule has 15 rounds; the only match on court 7 of every round has the Duo pair as
  \<open>team1\<close>; there are 10 non-Duo players, and each of them is on the team that faces
  the Duo on court 7 in exactly 3 of the rounds.
\<close>

theorem generateSchedule_duo_balance:
  assumes "generateSchedule cmp players seed = Inr rounds"
  shows "length rounds = 15 \<and>
    (\<forall>r \<in> set rounds. \<exists>o1 o2. court7 r =
       [\<lparr>court = 7, team1 = \<lparr>team_a = Some (dmIds players ! 0), team_b = Some (dmIds players ! 1)\<rparr>,
          team2 = \<lparr>team_a = Some o1, team_b = Some o2\<rparr>, score = None\<rparr>]) \<and>
    length (othersOf players (dmIds players ! 0) (dmIds players ! 1)) = 10 \<and>
    (\<forall>p \<in> set (othersOf players (dmIds players ! 0) (dmIds players ! 1)).
       length (filter (facesDuo p) rounds) = 3)"
proof -
  from assms obtain D M pairs where
    l12: "length players = 12" and dm: "dmIds players = [D, M]"
    and l10: "length (othersOf players D M) = 10"
    and bal: "buildBalancedDmOpponents cmp (othersOf players D M) = Inr pairs"
    and l15: "length rounds = 15" and ne: "D \<noteq> M" and dist: "distinct (othersOf players D M)"
    and rnd0: "\<forall>n<15. \<exists>o1 o2 pp. pairs ! n = Some (o1, o2) \<and> o1 \<noteq> o2 \<and>
            o1 \<in> set (othersOf players D M) \<and> o2 \<in> set (othersOf players D M) \<and>
            rounds ! n = \<lparr>round_no = n + 1, matches = roundMatches D M o1 o2 pp\<rparr> \<and>
            length pp = 4 \<and>
            mset (concat (map matchIds (roundMatches D M o1 o2 pp))) =
              image_mset Some (mset (map player_id players))"
    by (rule generateSchedule_facts)
  note rnd = rnd0 [rule_format]
  let ?others = "othersOf players D M"
  note br = buildBalanced_result [OF bal]
  have c7: "\<exists>o1 o2. court7 r =
       [\<lparr>court = 7, team1 = \<lparr>team_a = Some D, team_b = Some M\<rparr>,
          team2 = \<lparr>team_a = Some o1, team_b = Some o2\<rparr>, score = None\<rparr>]" if mem: "r \<in> set rounds" for r
  proof -
    obtain n where n: "n < 15" and r: "r = rounds ! n"
      using mem l15 by (auto simp: in_set_conv_nth)
    from rnd [OF n] obtain o1 o2 pp where
      "rounds ! n = \<lparr>round_no = n + 1, matches = roundMatches D M o1 o2 pp\<rparr>" by blast
    then show ?thesis unfolding r by (simp only: court7_roundMatches) blast
  qed
  have three: "length (filter (facesDuo p) rounds) = 3" if p: "p \<in> set ?others" for p
  proof -
    let ?Q = "\<lambda>e. case e of None \<Rightarrow> False | Some (x, y) \<Rightarrow> x = p \<or> y = p"
    have "length (filter (facesDuo p) rounds) = length (filter ?Q pairs)"
    proof (rule length_filter_nth_cong)
      show "length rounds = length pairs" using l15 br(1) by simp
      fix n assume "n < length rounds"
      then have n: "n < 15" using l15 by simp
      from rnd [OF n] obtain o1 o2 pp where
        "pairs ! n = Some (o1, o2)"
        "rounds ! n = \<lparr>round_no = n + 1, matches = roundMatches D M o1 o2 pp\<rparr>" by blast
      then show "facesDuo p (rounds ! n) \<longleftrightarrow> ?Q (pairs ! n)"
        by (simp add: facesDuo_def court7_roundMatches)
    qed
    then have pk: "picks p pairs = int (length (filter (facesDuo p) rounds))"
      by (simp add: picks_def)
    have "x \<noteq> y" if sxy: "Some (x, y) \<in> set pairs" for x y
    proof -
      obtain n where n: "n < 15" and pn: "pairs ! n = Some (x, y)"
        using sxy br(1) by (auto simp: in_set_conv_nth)
      from rnd [OF n] obtain o1 o2 where "pairs ! n = Some (o1, o2)" "o1 \<noteq> o2" by blast
      then show ?thesis using pn by simp
    qed
    then have "occ p pairs = picks p pairs" by (rule occ_eq_picks)
    then have "3 \<le> picks p pairs" using br(4) [OF p] by simp
    with br(3) [of p] have "picks p pairs = 3" by simp
    then show ?thesis using pk by simp
  qed
  show ?thesis using l15 c7 l10 three unfolding dm by simp
qed

theorem generateSchedule_duo_balance_witness:
  "\<exists>rounds. generateSchedule codeUnitCompare players0 42 = Inr rounds \<and>
     length rounds = 15 \<and>
     list_all (\<lambda>r. \<exists>o1 o2. court7 r =
       [\<lparr>court = 7, team1 = \<lparr>team_a = Some ''p1'', team_b = Some ''p2''\<rparr>,
          team2 = \<lparr>team_a = Some o1, team_b = Some o2\<rparr>, score = None\<rparr>]) rounds \<and>
     list_all (\<lambda>p. length (filter (facesDuo p) rounds) = 3) others0"
proof -
  obtain rounds where g: "generateSchedule codeUnitCompare players0 42 = Inr rounds"
    using generateSchedule_players0 by blast
  have "length rounds = 15 \<and>
     (\<forall>r \<in> set rounds. \<exists>o1 o2. court7 r =
       [\<lparr>court = 7, team1 = \<lparr>team_a = Some ''p1'', team_b = Some ''p2''\<rparr>,
          team2 = \<lparr>team_a = Some o1, team_b = Some o2\<rparr>, score = None\<rparr>]) \<and>
     (\<forall>p \<in> set others0. length (filter (facesDuo p) rounds) = 3)"
    using generateSchedule_duo_balance [OF g] by (simp add: players0_facts)
  then show ?thesis unfolding list_all_iff using g by blast
qed

text \<open>
  C2.  On every input on which \<open>generateSchedule\<close> succeeds, the ids of the input
  players are pairwise distinct, and every round has 3 matches, the four ids of each
  match are pairwise distinct, and the ids of the round's matches taken together are the
  ids of the input players, each once.
\<close>

theorem generateSchedule_coverage:
  assumes "generateSchedule cmp players seed = Inr rounds"
  shows "distinct (map player_id players) \<and>
    (\<forall>r \<in> set rounds.
       length (matches r) = 3 \<and>
       (\<forall>m \<in> set (matches r). distinct (matchIds m)) \<and>
       mset (concat (map matchIds (matches r))) = mset (map (\<lambda>p. Some (player_id p)) players))"
proof -
  from assms obtain D M pairs where
    l12: "length players = 12" and dm: "dmIds players = [D, M]"
    and l10: "length (othersOf players D M) = 10"
    and bal: "buildBalancedDmOpponents cmp (othersOf players D M) = Inr pairs"
    and l15: "length rounds = 15" and ne: "D \<noteq> M" and dist: "distinct (othersOf players D M)"
    and rnd0: "\<forall>n<15. \<exists>o1 o2 pp. pairs ! n = Some (o1, o2) \<and> o1 \<noteq> o2 \<and>
            o1 \<in> set (othersOf players D M) \<and> o2 \<in> set (othersOf players D M) \<and>
            rounds ! n = \<lparr>round_no = n + 1, matches = roundMatches D M o1 o2 pp\<rparr> \<and>
            length pp = 4 \<and>
            mset (concat (map matchIds (roundMatches D M o1 o2 pp))) =
              image_mset Some (mset (map player_id players))"
    by (rule generateSchedule_facts)
  note rnd = rnd0 [rule_format]
  have part: "mset (map player_id players) = mset (D # M # othersOf players D M)"
    using ids_partition [OF l12 dm l10] by simp
  have "distinct (D # M # othersOf players D M)"
    using ne dist others_notin [where D = D and M = M and players = players] by simp
  then have dp: "distinct (map player_id players)"
    using part by (metis mset_eq_imp_distinct_iff)
  have some: "map Some (map player_id players) = map (\<lambda>p. Some (player_id p)) players"
    by simp
  have ds: "distinct (map (\<lambda>p. Some (player_id p)) players)"
    unfolding some [symmetric] using dp by (subst distinct_map) (simp add: inj_on_def)
  have "length (matches r) = 3 \<and>
     (\<forall>m \<in> set (matches r). distinct (matchIds m)) \<and>
     mset (concat (map matchIds (matches r))) = mset (map (\<lambda>p. Some (player_id p)) players)"
    if r: "r \<in> set rounds" for r
  proof -
    obtain n where n: "n < 15" and rn: "r = rounds ! n"
      using r l15 by (auto simp: in_set_conv_nth)
    from rnd [OF n] obtain o1 o2 pp where
      m: "matches r = roundMatches D M o1 o2 pp"
      and ms: "mset (concat (map matchIds (roundMatches D M o1 o2 pp))) =
                image_mset Some (mset (map player_id players))"
      unfolding rn by auto
    have "image_mset Some (mset (map player_id players)) = mset (map Some (map player_id players))"
      by (rule mset_map [symmetric])
    then have ms': "mset (concat (map matchIds (matches r))) = mset (map (\<lambda>p. Some (player_id p)) players)"
      unfolding m ms some by simp
    then have d: "distinct (concat (map matchIds (matches r)))"
      using ds by (metis mset_eq_imp_distinct_iff)
    have dm: "distinct (matchIds mt)" if "mt \<in> set (matches r)" for mt
      using d that by (auto simp: distinct_concat_iff)
    have "length (matches r) = 3" unfolding m by (simp add: roundMatches_def)
    then show ?thesis using ms' dm by blast
  qed
  then show ?thesis using dp by blast
qed

theorem generateSchedule_coverage_witness:
  "\<exists>rounds. generateSchedule codeUnitCompare players0 42 = Inr rounds \<and>
     distinct (map player_id players0) \<and>
     list_all (\<lambda>r. length (matches r) = 3 \<and>
       list_all (\<lambda>m. distinct (matchIds m)) (matches r) \<and>
       mset (concat (map matchIds (matches r))) = mset (map (\<lambda>p. Some (player_id p)) players0)) rounds"
proof -
  obtain rounds where g: "generateSchedule codeUnitCompare players0 42 = Inr rounds"
    using generateSchedule_players0 by blast
  show ?thesis
    using generateSchedule_coverage [OF g] g unfolding list_all_iff by blast
qed







text \<open>
  C9.  The name rule counts the players whose name matches, and does not ask for one of
  each name: with the second of the twelve example players renamed to Daniel (and nobody
  named Macho), the generator takes the two Daniels as the Duo and returns a schedule of
  15 rounds in which they are \<open>team1\<close> on court 7 in every round.
\<close>

theorem generateSchedule_two_daniels:
  "length playersTwoDaniels = 12 \<and>
   map player_name (filter (\<lambda>p. isDuoName (player_name p)) playersTwoDaniels) = [''Daniel'', ''Daniel''] \<and>
   dmIds playersTwoDaniels = [''p1'', ''p2''] \<and>
   (\<exists>rounds. generateSchedule codeUnitCompare playersTwoDaniels 42 = Inr rounds \<and>
      length rounds = 15 \<and>
      map (\<lambda>r. map team1 (court7 r)) rounds =
        replicate 15 [\<lparr>team_a = Some ''p1'', team_b = Some ''p2''\<rparr>])"
proof -
  obtain rounds where g: "generateSchedule codeUnitCompare playersTwoDaniels 42 = Inr rounds"
    using generateSchedule_playersTwoDaniels by blast
  note r = generateSchedule_rounds [OF g]
  have "map (\<lambda>r. map team1 (court7 r)) rounds =
        replicate 15 [\<lparr>team_a = Some ''p1'', team_b = Some ''p2''\<rparr>]"
  proof (rule nth_equalityI)
    show "length (map (\<lambda>r. map team1 (court7 r)) rounds) =
       length (replicate 15 [\<lparr>team_a = Some ''p1'', team_b = Some ''p2''\<rparr>])"
      using r(1) by simp
    fix n assume "n < length (map (\<lambda>r. map team1 (court7 r)) rounds)"
    then have n: "n < 15" using r(1) by simp
    from r(2) [OF n] obtain o1 o2 pp where
      "rounds ! n = \<lparr>round_no = n + 1, matches = roundMatches ''p1'' ''p2'' o1 o2 pp\<rparr>"
      unfolding playersTwoDaniels_facts by auto
    then show "map (\<lambda>r. map team1 (court7 r)) rounds ! n =
        replicate 15 [\<lparr>team_a = Some ''p1'', team_b = Some ''p2''\<rparr>] ! n"
      using n r(1) by (simp add: court7_roundMatches)
  qed
  then show ?thesis using g r(1) playersTwoDaniels_facts by blast
qed

section \<open>Properties of the Duo summary on a generated schedule\<close>

lemma duoValid_first_score:
  assumes g: "generateSchedule cmp players seed = Inr fresh"
    and v: "validScore (Some s)"
  shows "\<exists>o1 o2. duoValid (Some (dmIds players ! 0)) (Some (dmIds players ! 1))
           (putScore fresh 0 0 (Some s)) =
         [\<lparr>court = 7,
           team1 = \<lparr>team_a = Some (dmIds players ! 0), team_b = Some (dmIds players ! 1)\<rparr>,
           team2 = \<lparr>team_a = Some o1, team_b = Some o2\<rparr>, score = Some s\<rparr>]"
proof -
  let ?D = "dmIds players ! 0" and ?M = "dmIds players ! 1"
  let ?P = "\<lambda>mt. duoPlayed (Some ?D) (Some ?M) mt \<and> validScore (score mt)"
  note f = generateSchedule_rounds [OF g]
  obtain r0 rest where fr: "fresh = r0 # rest"
    using f(1) by (cases fresh) simp_all
  from f(2) [of 0] obtain o1 o2 pp where
    r0: "r0 = \<lparr>round_no = 1, matches = roundMatches ?D ?M o1 o2 pp\<rparr>"
    unfolding fr by auto
  have none: "score mt = None" if "r \<in> set fresh" "mt \<in> set (matches r)" for r mt
    using g that by (rule generateSchedule_unscored)
  have "\<not> ?P mt" if "mt \<in> set (concat (map matches rest))" for mt
  proof -
    from that obtain r where "r \<in> set rest" "mt \<in> set (matches r)" by auto
    then have "score mt = None" using none [of r mt] by (simp add: fr)
    then show ?thesis by (simp add: validScore_def)
  qed
  then have rest: "filter ?P (concat (map matches rest)) = []"
    unfolding filter_empty_conv by blast
  have "duoValid (Some ?D) (Some ?M) (putScore fresh 0 0 (Some s)) =
      [\<lparr>court = 7, team1 = \<lparr>team_a = Some ?D, team_b = Some ?M\<rparr>,
        team2 = \<lparr>team_a = Some o1, team_b = Some o2\<rparr>, score = Some s\<rparr>]"
    using v rest
    by (simp add: duoValid_def putScore_def fr r0 roundMatches_def duoPlayed_def hasDM_def)
      (simp add: validScore_def)
  then show ?thesis by blast
qed

text \<open>
  C7.  The counters of \<open>dmSummary\<close> are those of the matches in which both Duo ids
  are on one team and the score sums to 24: their number, how many the Duo won, tied and
  lost by comparing its score with the opponents', and the sum of its scores as
  points-for; the average is points-for divided by the number of these matches, and 0
  when there is none.  On a freshly generated schedule, entering 15 for \<open>team1\<close> of
  round 1, court 7, gives the score 15-9 there, and the summary is then played 1, won 1,
  points-for 15, average 15.
\<close>

theorem dmSummary_counts:
  "dmTotals schedule d m = totalsOf d m (duoValid d m schedule) \<and>
   dmSummary schedule d m =
     \<lparr>s_played = int (length (duoValid d m schedule)),
      s_won = t_won (dmTotals schedule d m),
      s_tied = t_tied (dmTotals schedule d m),
      s_lost = t_lost (dmTotals schedule d m),
      s_avg = (if duoValid d m schedule = [] then 0
               else of_int (t_pointsFor (dmTotals schedule d m)) /
                    of_int (int (length (duoValid d m schedule))))\<rparr> \<and>
   (generateSchedule cmp players seed = Inr fresh \<longrightarrow>
      court (matches (fresh ! 0) ! 0) = 7 \<and>
      setScoreAuto fresh 0 0 15 1 =
        Inr (putScore fresh 0 0 (Some \<lparr>score_team1 = 15, score_team2 = 9\<rparr>)) \<and>
      dmTotals (putScore fresh 0 0 (Some \<lparr>score_team1 = 15, score_team2 = 9\<rparr>))
          (Some (dmIds players ! 0)) (Some (dmIds players ! 1)) =
        \<lparr>t_played = 1, t_won = 1, t_tied = 0, t_lost = 0, t_pointsFor = 15\<rparr> \<and>
      dmSummary (putScore fresh 0 0 (Some \<lparr>score_team1 = 15, score_team2 = 9\<rparr>))
          (Some (dmIds players ! 0)) (Some (dmIds players ! 1)) =
        \<lparr>s_played = 1, s_won = 1, s_tied = 0, s_lost = 0, s_avg = 15\<rparr>)"
proof (intro conjI impI)
  show "dmTotals schedule d m = totalsOf d m (duoValid d m schedule)"
    by (rule dmTotals_eq)
  show "dmSummary schedule d m =
     \<lparr>s_played = int (length (duoValid d m schedule)),
      s_won = t_won (dmTotals schedule d m),
      s_tied = t_tied (dmTotals schedule d m),
      s_lost = t_lost (dmTotals schedule d m),
      s_avg = (if duoValid d m schedule = [] then 0
               else of_int (t_pointsFor (dmTotals schedule d m)) /
                    of_int (int (length (duoValid d m schedule))))\<rparr>"
    unfolding dmSummary_eq dmTotals_eq by (simp add: Let_def totalsOf_def)
next
  assume g: "generateSchedule cmp players seed = Inr fresh"
  let ?s = "\<lparr>score_team1 = 15, score_team2 = 9\<rparr>"
  let ?D = "dmIds players ! 0" and ?M = "dmIds players ! 1"
  note f = generateSchedule_rounds [OF g]
  from f(2) [of 0] obtain o1 o2 pp where
    r0: "fresh ! 0 = \<lparr>round_no = 1, matches = roundMatches ?D ?M o1 o2 pp\<rparr>"
    by auto
  show "court (matches (fresh ! 0) ! 0) = 7"
    by (simp add: r0 roundMatches_def)
  have "setScoreAuto fresh 0 0 15 1 =
     Inr (putScore fresh 0 0 (Some \<lparr>score_team1 = clamp24 15, score_team2 = clamp24 (24 - 15)\<rparr>))"
    by (subst setScoreAuto_eq) (simp_all add: f(1) r0 roundMatches_def)
  then show "setScoreAuto fresh 0 0 15 1 = Inr (putScore fresh 0 0 (Some ?s))"
    by (simp add: clamp24_def)
  have "validScore (Some ?s)" by (simp add: validScore_def)
  from duoValid_first_score [OF g this] obtain p1 p2 where
    dv: "duoValid (Some ?D) (Some ?M) (putScore fresh 0 0 (Some ?s)) =
         [\<lparr>court = 7, team1 = \<lparr>team_a = Some ?D, team_b = Some ?M\<rparr>,
           team2 = \<lparr>team_a = Some p1, team_b = Some p2\<rparr>, score = Some ?s\<rparr>]"
    by blast
  show "dmTotals (putScore fresh 0 0 (Some ?s)) (Some ?D) (Some ?M) =
        \<lparr>t_played = 1, t_won = 1, t_tied = 0, t_lost = 0, t_pointsFor = 15\<rparr>"
    unfolding dmTotals_eq dv by (simp add: totalsOf_def duoScore_def oppScore_def hasDM_def)
  show "dmSummary (putScore fresh 0 0 (Some ?s)) (Some ?D) (Some ?M) =
        \<lparr>s_played = 1, s_won = 1, s_tied = 0, s_lost = 0, s_avg = 15\<rparr>"
    unfolding dmSummary_eq dv by (simp add: Let_def totalsOf_def duoScore_def oppScore_def hasDM_def)
qed

theorem dmSummary_counts_witness:
  "dmTotals schedX ''p5'' ''p6'' =
      \<lparr>t_played = 1, t_won = 1, t_tied = 0, t_lost = 0, t_pointsFor = 15\<rparr> \<and>
   dmSummary schedX ''p1'' ''p2'' =
      \<lparr>s_played = 0, s_won = 0, s_tied = 0, s_lost = 0, s_avg = 0\<rparr> \<and>
   (\<exists>fresh. generateSchedule codeUnitCompare players0 42 = Inr fresh \<and>
      court (matches (fresh ! 0) ! 0) = 7 \<and>
      setScoreAuto fresh 0 0 15 1 =
        Inr (putScore fresh 0 0 (Some \<lparr>score_team1 = 15, score_team2 = 9\<rparr>)) \<and>
      dmTotals (putScore fresh 0 0 (Some \<lparr>score_team1 = 15, score_team2 = 9\<rparr>))
          (Some ''p1'') (Some ''p2'') =
        \<lparr>t_played = 1, t_won = 1, t_tied = 0, t_lost = 0, t_pointsFor = 15\<rparr> \<and>
      dmSummary (putScore fresh 0 0 (Some \<lparr>score_team1 = 15, score_team2 = 9\<rparr>))
          (Some ''p1'') (Some ''p2'') =
        \<lparr>s_played = 1, s_won = 1, s_tied = 0, s_lost = 0, s_avg = 15\<rparr>)"
proof -
  obtain fresh where g: "generateSchedule codeUnitCompare players0 42 = Inr fresh"
    using generateSchedule_players0 by blast
  have v1: "duoValid ''p5'' ''p6'' schedX =
      [\<lparr>court = 8, team1 = \<lparr>team_a = ''p5'', team_b = ''p6''\<rparr>,
         team2 = \<lparr>team_a = ''p7'', team_b = ''p8''\<rparr>,
         score = Some \<lparr>score_team1 = 15, score_team2 = 9\<rparr>\<rparr>]"
    by (simp add: duoValid_def schedX_def duoPlayed_def hasDM_def validScore_def)
  have v2: "duoValid ''p1'' ''p2'' schedX = []"
    by (simp add: duoValid_def schedX_def duoPlayed_def hasDM_def validScore_def)
  have 1: "dmTotals schedX ''p5'' ''p6'' =
      \<lparr>t_played = 1, t_won = 1, t_tied = 0, t_lost = 0, t_pointsFor = 15\<rparr>"
    using dmSummary_counts [of schedX "''p5''" "''p6''" codeUnitCompare players0 42 fresh]
    by (simp add: v1 totalsOf_def duoScore_def oppScore_def hasDM_def)
  have t2: "dmTotals schedX ''p1'' ''p2'' =
      \<lparr>t_played = 0, t_won = 0, t_tied = 0, t_lost = 0, t_pointsFor = 0\<rparr>"
    using dmSummary_counts [of schedX "''p1''" "''p2''" codeUnitCompare players0 42 fresh]
    by (simp add: v2 totalsOf_def)
  have 2: "dmSummary schedX ''p1'' ''p2'' =
      \<lparr>s_played = 0, s_won = 0, s_tied = 0, s_lost = 0, s_avg = 0\<rparr>"
    using dmSummary_counts [of schedX "''p1''" "''p2''" codeUnitCompare players0 42 fresh]
    by (simp add: v2 t2)
  have 3: "court (matches (fresh ! 0) ! 0) = 7 \<and>
      setScoreAuto fresh 0 0 15 1 =
        Inr (putScore fresh 0 0 (Some \<lparr>score_team1 = 15, score_team2 = 9\<rparr>)) \<and>
      dmTotals (putScore fresh 0 0 (Some \<lparr>score_team1 = 15, score_team2 = 9\<rparr>))
          (Some ''p1'') (Some ''p2'') =
        \<lparr>t_played = 1, t_won = 1, t_tied = 0, t_lost = 0, t_pointsFor = 15\<rparr> \<and>
      dmSummary (putScore fresh 0 0 (Some \<lparr>score_team1 = 15, score_team2 = 9\<rparr>))
          (Some ''p1'') (Some ''p2'') =
        \<lparr>s_played = 1, s_won = 1, s_tied = 0, s_lost = 0, s_avg = 15\<rparr>"
    using dmSummary_counts [of schedX "''p1''" "''p2''" codeUnitCompare players0 42 fresh] g
    by (simp add: players0_facts)
  show ?thesis using 1 2 3 g by blast
qed

end
